theory Spec2Isabelle
  imports Complex_Main "HOL-Library.Word" "HOL-Library.Signed_Division"
begin

section \<open>The D* planner of \<^verbatim>\<open>d_star.cpp\<close>\<close>

text \<open>
  The planner object is a record that is passed in and returned. Node pointers are grid
  coordinates: the grid \<^verbatim>\<open>map_\<close> owns one node per cell and nothing else creates nodes,
  so a pointer and the coordinates of its cell identify each other. Costs and keys are
  C++ doubles; they are modelled by real numbers, with \<^verbatim>\<open>std::hypot\<close> as the exact
  square root. A read outside an array is undefined behaviour in C++ and is an error value
  here. The three \<^verbatim>\<open>while\<close> loops that have no bound in the source take fuel: the result
  \<open>None\<close> says that the fuel ran out before the loop ended.
\<close>

subsection \<open>Nodes, tags and the planner object\<close>

datatype Tag = NEW | OPEN | CLOSED

text \<open>\<^verbatim>\<open>Node\<close>: the fields \<^verbatim>\<open>x, y, cost, h_cost, id, pid\<close> of the base class.\<close>

record Node =
  node_x :: int
  node_y :: int
  cost :: real
  h_cost :: real
  node_id :: int
  pid :: int

text \<open>\<^verbatim>\<open>DNode\<close> extends \<^verbatim>\<open>Node\<close> by the tag and the key \<^verbatim>\<open>k\<close>.\<close>

record DNode = Node +
  tag :: Tag
  key :: real

datatype error = OutOfBounds | EmptyRead

text \<open>
  What \<^verbatim>\<open>processState\<close> returns: a double, or the indeterminate value obtained by
  dereferencing \<^verbatim>\<open>open_list_.begin()\<close> of an empty multimap.
\<close>

datatype kmin = KMin real | PastEnd

type_synonym coord = "int \<times> int"

text \<open>
  The members of the planner. \<^verbatim>\<open>nx_\<close>, \<^verbatim>\<open>ny_\<close>, \<^verbatim>\<open>lethal_cost_\<close> and \<^verbatim>\<open>factor_\<close> belong
  to the base class \<^verbatim>\<open>GlobalPlanner\<close>; \<^verbatim>\<open>INF\<close> and \<^verbatim>\<open>SIM_DISTANCE\<close> are macros of the
  header. Neither is part of the source file, so they are parameters here. The open list is
  the \<^verbatim>\<open>std::multimap\<close> read from \<^verbatim>\<open>begin()\<close> on: sorted by key, entries of equal key
  in insertion order. A constant of the logic cannot end in an underscore, so the members
  \<^verbatim>\<open>nx_\<close>, \<^verbatim>\<open>map_\<close>, ... are written \<open>nx'\<close>, \<open>map'\<close>, ...; the macro \<^verbatim>\<open>INF\<close> is written \<open>INF'\<close>, since the
  logic reads \<^verbatim>\<open>INF\<close> as its infimum.
\<close>

record DStar =
  nx' :: int
  ny' :: int
  lethal_cost' :: real
  factor' :: real
  INF' :: int
  SIM_DISTANCE :: nat
  global_costmap' :: "8 word list"
  map' :: "coord \<Rightarrow> DNode"
  open_list' :: "(real \<times> coord) list"
  path' :: "Node list"
  goal' :: coord

definition ns :: "DStar \<Rightarrow> int" where
  "ns s = nx' s * ny' s"

text \<open>
  Modelled from the spec: \<^verbatim>\<open>grid2Index\<close> and \<^verbatim>\<open>index2Grid\<close> of the base class
  \<^verbatim>\<open>GlobalPlanner\<close> are missing from the source file. The spec calls them the conversion
  between grid coordinates and the derived linear index; they are taken row by row, with
  the division and remainder of C++ (truncated towards zero).
\<close>

definition grid2Index :: "DStar \<Rightarrow> int \<Rightarrow> int \<Rightarrow> int" where
  "grid2Index s x y = x + nx' s * y"

definition index2Grid :: "DStar \<Rightarrow> int \<Rightarrow> coord" where
  "index2Grid s i = (i smod nx' s, i sdiv nx' s)"

text \<open>The cells for which \<^verbatim>\<open>initMap\<close> allocates a node.\<close>

definition in_grid :: "DStar \<Rightarrow> coord \<Rightarrow> bool" where
  "in_grid s c = (0 \<le> fst c \<and> fst c < nx' s \<and> 0 \<le> snd c \<and> snd c < ny' s)"

definition initMap :: "DStar \<Rightarrow> DStar" where
  "initMap s = s\<lparr>map' := (\<lambda>(i, j).
     \<lparr>node_x = i, node_y = j, cost = real_of_int (INF' s), h_cost = real_of_int (INF' s),
      node_id = grid2Index s i j, pid = - 1, tag = NEW, key = real_of_int (INF' s)\<rparr>)\<rparr>"

definition reset :: "DStar \<Rightarrow> DStar" where
  "reset s = initMap (s\<lparr>open_list' := []\<rparr>)"

text \<open>
  The constructor. The cost map is allocated and left uninitialised in the source; every
  call of \<^verbatim>\<open>plan\<close> overwrites it before it is read.
\<close>

definition DStar_new :: "int \<Rightarrow> int \<Rightarrow> real \<Rightarrow> real \<Rightarrow> int \<Rightarrow> nat \<Rightarrow> DStar" where
  "DStar_new nx ny lethal_cost fac infty sim =
     initMap \<lparr>nx' = nx, ny' = ny, lethal_cost' = lethal_cost, factor' = fac, INF' = infty,
       SIM_DISTANCE = sim, global_costmap' = replicate (nat (nx * ny)) 0,
       map' = (\<lambda>c. undefined), open_list' = [], path' = [], goal' = (infty, infty)\<rparr>"

subsection \<open>The open list\<close>

text \<open>\<^verbatim>\<open>std::multimap::insert\<close>: behind every entry whose key is not larger.\<close>

fun multimap_insert :: "real \<times> coord \<Rightarrow> (real \<times> coord) list \<Rightarrow> (real \<times> coord) list" where
  "multimap_insert e [] = [e]"
| "multimap_insert e (h # t) = (if fst e < fst h then e # h # t else h # multimap_insert e t)"

text \<open>\<^verbatim>\<open>DStar::insert\<close> (the name \<open>insert\<close> is taken by sets).\<close>

definition insert_node :: "DStar \<Rightarrow> coord \<Rightarrow> real \<Rightarrow> DStar" where
  "insert_node s c h_new =
     (let n = map' s c;
          k = (case tag n of NEW \<Rightarrow> h_new | OPEN \<Rightarrow> min (key n) h_new | CLOSED \<Rightarrow> min (cost n) h_new)
      in s\<lparr>map' := (map' s)(c := n\<lparr>cost := h_new, tag := OPEN, key := k\<rparr>),
           open_list' := multimap_insert (k, c) (open_list' s)\<rparr>)"

subsection \<open>Collision, edge cost and neighbours\<close>

definition lethal :: "DStar \<Rightarrow> int \<Rightarrow> bool" where
  "lethal s i = (real (unat (global_costmap' s ! nat i)) > lethal_cost' s * factor' s)"

definition isCollision :: "DStar \<Rightarrow> DNode \<Rightarrow> DNode \<Rightarrow> bool" where
  "isCollision s n1 n2 = (lethal s (node_id n1) \<or> lethal s (node_id n2))"

definition getCost :: "DStar \<Rightarrow> DNode \<Rightarrow> DNode \<Rightarrow> real" where
  "getCost s n1 n2 =
     (if isCollision s n1 n2 then real_of_int (INF' s)
      else sqrt (real_of_int ((node_x n1 - node_x n2)\<^sup>2 + (node_y n1 - node_y n2)\<^sup>2)))"

text \<open>The offsets \<open>(i, j)\<close> in the order of the two nested loops, without \<open>(0, 0)\<close>.\<close>

definition offsets :: "coord list" where
  "offsets = [(- 1, - 1), (- 1, 0), (- 1, 1), (0, - 1), (0, 1), (1, - 1), (1, 0), (1, 1)]"

text \<open>The bounds test of the source, as it is written there.\<close>

definition skipped :: "DStar \<Rightarrow> coord \<Rightarrow> bool" where
  "skipped s c = (fst c < 0 \<or> fst c > nx' s \<or> snd c < 0 \<or> snd c > ny' s)"

text \<open>
  One round of the inner loop. A candidate that passes the bounds test is read from
  \<^verbatim>\<open>map_\<close>; outside the allocated grid this read is the error \<open>OutOfBounds\<close>.
\<close>

fun getNeighbours_loop :: "DStar \<Rightarrow> coord \<Rightarrow> coord list \<Rightarrow> coord list \<Rightarrow> error + coord list" where
  "getNeighbours_loop s c [] neighbours = Inr neighbours"
| "getNeighbours_loop s c ((i, j) # rest) neighbours =
     (let n = (node_x (map' s c) + i, node_y (map' s c) + j) in
      if skipped s n then getNeighbours_loop s c rest neighbours
      else if \<not> in_grid s n then Inl OutOfBounds
      else if isCollision s (map' s c) (map' s n) then getNeighbours_loop s c rest neighbours
      else getNeighbours_loop s c rest (neighbours @ [n]))"

definition getNeighbours :: "DStar \<Rightarrow> coord \<Rightarrow> error + coord list" where
  "getNeighbours s c = getNeighbours_loop s c offsets []"

subsection \<open>processState\<close>

text \<open>The body of the first loop (source lines 147 to 155) for one neighbour \<open>y\<close>.\<close>

definition raise_step :: "coord \<Rightarrow> real \<Rightarrow> coord \<Rightarrow> DStar \<Rightarrow> DStar" where
  "raise_step x k_old y s =
     (let xn = map' s x; yn = map' s y in
      if cost yn \<le> k_old \<and> cost xn > cost yn + getCost s yn xn
      then s\<lparr>map' := (map' s)(x := xn\<lparr>cost := cost yn + getCost s yn xn, pid := node_id yn\<rparr>)\<rparr>
      else s)"

text \<open>The body of the loop of the LOWER state (source lines 161 to 170).\<close>

definition lower_step :: "coord \<Rightarrow> coord \<Rightarrow> DStar \<Rightarrow> DStar" where
  "lower_step x y s =
     (let xn = map' s x; yn = map' s y; h = cost xn + getCost s xn yn in
      if tag yn = NEW \<or> (pid yn = node_id xn \<and> cost yn \<noteq> h) \<or> (pid yn \<noteq> node_id xn \<and> cost yn > h)
      then insert_node (s\<lparr>map' := (map' s)(y := yn\<lparr>pid := node_id xn\<rparr>)\<rparr>) y h
      else s)"

text \<open>The body of the loop of the RAISE state (source lines 175 to 191).\<close>

definition raise_state_step :: "coord \<Rightarrow> real \<Rightarrow> coord \<Rightarrow> DStar \<Rightarrow> DStar" where
  "raise_state_step x k_old y s =
     (let xn = map' s x; yn = map' s y; h = cost xn + getCost s xn yn in
      if tag yn = NEW \<or> (pid yn = node_id xn \<and> cost yn \<noteq> h)
      then insert_node (s\<lparr>map' := (map' s)(y := yn\<lparr>pid := node_id xn\<rparr>)\<rparr>) y h
      else if pid yn \<noteq> node_id xn \<and> cost yn > h
      then insert_node s x (cost xn)
      else if pid yn \<noteq> node_id xn \<and> cost xn > cost yn + getCost s xn yn \<and> tag yn = CLOSED
              \<and> cost yn > k_old
      then insert_node s y (cost yn)
      else s)"

text \<open>The value returned at the end: the key at \<^verbatim>\<open>begin()\<close>, with no test for emptiness.\<close>

definition first_key :: "DStar \<Rightarrow> kmin" where
  "first_key s = (case open_list' s of [] \<Rightarrow> PastEnd | e # _ \<Rightarrow> KMin (fst e))"

definition processState :: "DStar \<Rightarrow> error + (DStar \<times> kmin)" where
  "processState s =
     (case open_list' s of
        [] \<Rightarrow> Inr (s, KMin (- 1))
      | (k_old, x) # rest \<Rightarrow>
          (let s1 = s\<lparr>open_list' := rest, map' := (map' s)(x := (map' s x)\<lparr>tag := CLOSED\<rparr>)\<rparr> in
           case getNeighbours s1 x of
             Inl e \<Rightarrow> Inl e
           | Inr neigbours \<Rightarrow>
               (let s2 = (if k_old < cost (map' s1 x) then fold (raise_step x k_old) neigbours s1
                          else s1);
                    s3 = (if k_old = cost (map' s2 x) then fold (lower_step x) neigbours s2
                          else fold (raise_state_step x k_old) neigbours s2)
                in Inr (s3, first_key s3))))"

subsection \<open>Expansion set and path\<close>

definition cells :: "DStar \<Rightarrow> coord list" where
  "cells s = concat (map (\<lambda>i. map (\<lambda>j. (i, j)) [0 .. ny' s - 1]) [0 .. nx' s - 1])"

definition extractExpand :: "DStar \<Rightarrow> Node list" where
  "extractExpand s = map Node.truncate (filter (\<lambda>n. tag n = CLOSED) (map (map' s) (cells s)))"

text \<open>
  The loop of \<^verbatim>\<open>extractPath\<close>: \<open>c\<close> is the node pointer, \<open>acc\<close> the vector \<^verbatim>\<open>path_\<close>.
  The node behind the predecessor index is read from \<^verbatim>\<open>map_\<close>; for an index outside the
  grid (the index \<open>- 1\<close> of a node without predecessor is one) the read is an error.
\<close>

fun extractPath_loop :: "nat \<Rightarrow> DStar \<Rightarrow> coord \<Rightarrow> coord \<Rightarrow> Node list \<Rightarrow> (error + Node list) option" where
  "extractPath_loop 0 s c goal acc = None"
| "extractPath_loop (Suc fuel) s c goal acc =
     (let n = map' s c in
      if node_x n \<noteq> fst goal \<or> node_y n \<noteq> snd goal
      then (let c' = index2Grid s (pid n) in
            if in_grid s c' then extractPath_loop fuel s c' goal (acc @ [Node.truncate n])
            else Some (Inl OutOfBounds))
      else Some (Inr acc))"

definition extractPath :: "nat \<Rightarrow> DStar \<Rightarrow> coord \<Rightarrow> coord \<Rightarrow> (error + DStar) option" where
  "extractPath fuel s start goal =
     (if \<not> in_grid s start then Some (Inl OutOfBounds)
      else case extractPath_loop fuel s start goal (path' s) of
             None \<Rightarrow> None
           | Some (Inl e) \<Rightarrow> Some (Inl e)
           | Some (Inr acc) \<Rightarrow> Some (Inr (s\<lparr>path' := rev acc\<rparr>)))"

subsection \<open>Nearest point of the path\<close>

text \<open>The distance of \<^verbatim>\<open>getState\<close>: the double of \<^verbatim>\<open>std::hypot\<close> converted to \<^verbatim>\<open>int\<close>.\<close>

definition dis :: "Node \<Rightarrow> coord \<Rightarrow> int" where
  "dis p c = \<lfloor>sqrt (real_of_int ((node_x p - fst c)\<^sup>2 + (node_y p - snd c)\<^sup>2))\<rfloor>"

fun getState_loop :: "Node list \<Rightarrow> coord \<Rightarrow> nat \<Rightarrow> int \<Rightarrow> nat \<Rightarrow> nat" where
  "getState_loop [] current i dis_min idx_min = idx_min"
| "getState_loop (p # ps) current i dis_min idx_min =
     (if dis p current < dis_min then getState_loop ps current (Suc i) (dis p current) i
      else getState_loop ps current (Suc i) dis_min idx_min)"

definition getState :: "DStar \<Rightarrow> coord \<Rightarrow> error + coord" where
  "getState s current =
     (case path' s of
        [] \<Rightarrow> Inl OutOfBounds
      | p # ps \<Rightarrow>
          (let idx_min = getState_loop ps current 1 (dis p current) 0
           in Inr (node_x (path' s ! idx_min), node_y (path' s ! idx_min))))"

subsection \<open>Repair and the planner's entry point\<close>

text \<open>
  The loop of \<^verbatim>\<open>modify\<close>. Its test compares the returned key with the cost of \<open>x\<close>; when
  the key is the indeterminate one, the comparison has no value and the call is an error.
\<close>

fun modify_loop :: "nat \<Rightarrow> DStar \<Rightarrow> coord \<Rightarrow> (error + DStar) option" where
  "modify_loop 0 s x = None"
| "modify_loop (Suc fuel) s x =
     (case processState s of
        Inl e \<Rightarrow> Some (Inl e)
      | Inr (s', PastEnd) \<Rightarrow> Some (Inl EmptyRead)
      | Inr (s', KMin k_min) \<Rightarrow>
          if k_min \<ge> cost (map' s' x) then Some (Inr s') else modify_loop fuel s' x)"

definition modify :: "nat \<Rightarrow> DStar \<Rightarrow> coord \<Rightarrow> coord \<Rightarrow> (error + DStar) option" where
  "modify fuel s x y =
     modify_loop fuel
       (if tag (map' s x) = CLOSED
        then insert_node s x (cost (map' s y) + getCost s (map' s x) (map' s y))
        else s) x"

text \<open>The search loop of a fresh goal: the value of \<^verbatim>\<open>processState\<close> is not looked at.\<close>

fun plan_loop :: "nat \<Rightarrow> DStar \<Rightarrow> coord \<Rightarrow> (error + DStar) option" where
  "plan_loop 0 s start = None"
| "plan_loop (Suc fuel) s start =
     (case processState s of
        Inl e \<Rightarrow> Some (Inl e)
      | Inr (s', k_min) \<Rightarrow>
          if tag (map' s' start) = CLOSED then Some (Inr s') else plan_loop fuel s' start)"

text \<open>The walk along the old path: \<open>n\<close> counts the rounds that are left of \<^verbatim>\<open>SIM_DISTANCE\<close>.\<close>

fun walk :: "nat \<Rightarrow> nat \<Rightarrow> DStar \<Rightarrow> coord \<Rightarrow> (error + DStar) option" where
  "walk fuel 0 s x = Some (Inr s)"
| "walk fuel (Suc n) s x =
     (if pid (map' s x) = - 1 then Some (Inr s)
      else (let y = index2Grid s (pid (map' s x)) in
            if \<not> in_grid s y then Some (Inl OutOfBounds)
            else if isCollision s (map' s x) (map' s y)
            then (case modify fuel s x y of
                    None \<Rightarrow> None
                  | Some (Inl e) \<Rightarrow> Some (Inl e)
                  | Some (Inr s') \<Rightarrow> walk fuel n s' x)
            else walk fuel n s y))"

text \<open>What both branches of \<^verbatim>\<open>plan\<close> end with.\<close>

definition finish :: "nat \<Rightarrow> DStar \<Rightarrow> coord \<Rightarrow> coord
    \<Rightarrow> (error + DStar \<times> bool \<times> Node list \<times> Node list) option" where
  "finish fuel s from goal =
     (case extractPath fuel (s\<lparr>path' := []\<rparr>) from goal of
        None \<Rightarrow> None
      | Some (Inl e) \<Rightarrow> Some (Inl e)
      | Some (Inr s') \<Rightarrow> Some (Inr (s', True, path' s', extractExpand s')))"

text \<open>
  \<^verbatim>\<open>plan\<close> returns the flag, the path and, through its last parameter, the expansion set;
  the planner object comes back with them. \<^verbatim>\<open>memcpy\<close> reads \<^verbatim>\<open>ns_\<close> bytes of the caller's
  buffer, and \<^verbatim>\<open>map_\<close> is read at the start and at the goal.
\<close>

definition plan :: "nat \<Rightarrow> DStar \<Rightarrow> 8 word list \<Rightarrow> coord \<Rightarrow> coord
    \<Rightarrow> (error + DStar \<times> bool \<times> Node list \<times> Node list) option" where
  "plan fuel s0 costs start goal =
     (if int (length costs) < ns s0 then Some (Inl OutOfBounds)
      else (let s = s0\<lparr>global_costmap' := take (nat (ns s0)) costs\<rparr> in
        if goal' s \<noteq> goal
        then (let s1 = (reset s)\<lparr>goal' := goal\<rparr> in
              if in_grid s1 start \<and> in_grid s1 goal
              then (case plan_loop fuel (insert_node s1 goal 0) start of
                      None \<Rightarrow> None
                    | Some (Inl e) \<Rightarrow> Some (Inl e)
                    | Some (Inr s2) \<Rightarrow> finish fuel s2 start goal)
              else Some (Inl OutOfBounds))
        else (case getState s start of
                Inl e \<Rightarrow> Some (Inl e)
              | Inr state \<Rightarrow>
                  if \<not> in_grid s state then Some (Inl OutOfBounds)
                  else (case walk fuel (SIM_DISTANCE s) s state of
                          None \<Rightarrow> None
                        | Some (Inl e) \<Rightarrow> Some (Inl e)
                        | Some (Inr s2) \<Rightarrow> finish fuel s2 state goal))))"

subsection \<open>Reading the claims\<close>

text \<open>
  Two states differ in nothing but the cost and the predecessor of the node \<open>x\<close>.
\<close>

definition only_cost_pid :: "coord \<Rightarrow> DStar \<Rightarrow> DStar \<Rightarrow> bool" where
  "only_cost_pid x s t =
     (t = s\<lparr>map' := (map' s)(x := (map' s x)\<lparr>cost := cost (map' t x), pid := pid (map' t x)\<rparr>)\<rparr>)"

text \<open>The grid coordinates stored in a node.\<close>

definition coords :: "'a Node_scheme \<Rightarrow> coord" where
  "coords n = (node_x n, node_y n)"

text \<open>
  What no step of the search touches: the members other than the open list, and in every
  node the coordinates, the index and \<^verbatim>\<open>h_cost\<close>.
\<close>

definition static :: "DStar \<Rightarrow> DStar \<Rightarrow> bool" where
  "static s t =
     (nx' t = nx' s \<and> ny' t = ny' s \<and> lethal_cost' t = lethal_cost' s \<and> factor' t = factor' s
      \<and> INF' t = INF' s \<and> SIM_DISTANCE t = SIM_DISTANCE s
      \<and> global_costmap' t = global_costmap' s \<and> path' t = path' s \<and> goal' t = goal' s
      \<and> (\<forall>c. node_x (map' t c) = node_x (map' s c) \<and> node_y (map' t c) = node_y (map' s c)
            \<and> node_id (map' t c) = node_id (map' s c) \<and> h_cost (map' t c) = h_cost (map' s c)))"

text \<open>Every node carries the coordinates and the index of its own cell, as \<^verbatim>\<open>initMap\<close> sets them.\<close>

definition wf_map :: "DStar \<Rightarrow> bool" where
  "wf_map s = (\<forall>c. coords (map' s c) = c \<and> node_id (map' s c) = grid2Index s (fst c) (snd c))"

text \<open>\<open>n\<close> calls of \<^verbatim>\<open>processState\<close> in a row, whatever they return.\<close>

fun run :: "nat \<Rightarrow> DStar \<Rightarrow> error + DStar" where
  "run 0 s = Inr s"
| "run (Suc n) s = (case processState s of Inl e \<Rightarrow> Inl e | Inr (s', k) \<Rightarrow> run n s')"

text \<open>
  The invariant of the search for the goal \<open>g\<close>: the goal has cost 0, no predecessor and
  is not NEW; no cost is negative; every entry of the open list is a cell of the grid.
\<close>

definition goal_inv :: "coord \<Rightarrow> DStar \<Rightarrow> bool" where
  "goal_inv g s =
     (wf_map s \<and> 0 \<le> INF' s \<and> in_grid s g \<and> cost (map' s g) = 0 \<and> pid (map' s g) = - 1
      \<and> tag (map' s g) \<noteq> NEW \<and> (\<forall>c. 0 \<le> cost (map' s c))
      \<and> (\<forall>e \<in> set (open_list' s). in_grid s (snd e)))"


text \<open>
  The nodes that \<^verbatim>\<open>extractPath\<close> visits from the cell \<open>c\<close>: each is the copy of the node
  of its cell, the next cell is the one behind its predecessor index, and the walk ends in
  front of the goal.
\<close>

fun chain :: "DStar \<Rightarrow> coord \<Rightarrow> coord \<Rightarrow> Node list \<Rightarrow> bool" where
  "chain s c goal [] = (c = goal)"
| "chain s c goal (n # vis) =
     (c \<noteq> goal \<and> n = Node.truncate (map' s c) \<and> chain s (index2Grid s (pid n)) goal vis)"

text \<open>The flag and the coordinates of the path of a call that returned.\<close>

definition result_path :: "(error + DStar \<times> bool \<times> Node list \<times> Node list) option
    \<Rightarrow> (bool \<times> coord list) option" where
  "result_path r = (case r of Some (Inr (s, found, p, e)) \<Rightarrow> Some (found, map coords p) | _ \<Rightarrow> None)"


text \<open>Every entry of the open list is a cell of the grid.\<close>

definition open_in_grid :: "DStar \<Rightarrow> bool" where
  "open_in_grid s = (\<forall>e \<in> set (open_list' s). in_grid s (snd e))"

text \<open>
  Every predecessor index that is set leads to a cell of the grid that is not in collision
  with the node.
\<close>

definition pred_ok :: "DStar \<Rightarrow> bool" where
  "pred_ok s = (\<forall>c. in_grid s c \<and> pid (map' s c) \<noteq> - 1 \<longrightarrow>
     in_grid s (index2Grid s (pid (map' s c)))
     \<and> \<not> isCollision s (map' s c) (map' s (index2Grid s (pid (map' s c)))))"

text \<open>The invariant of the search about the predecessor links.\<close>

definition links_inv :: "DStar \<Rightarrow> bool" where
  "links_inv s = (wf_map s \<and> pred_ok s \<and> open_in_grid s)"


subsection \<open>Example planners\<close>

text \<open>
  A corridor of five by two cells. The upper row and the last column are lethal, so the
  search never expands a cell on the upper edge of the grid. With \<open>open_costs\<close> the cells
  \<open>(0,0)\<close> to \<open>(3,0)\<close> are free; with \<open>wall_costs\<close> the cell \<open>(1,0)\<close> is lethal as well.
\<close>

definition corridor :: DStar where
  "corridor = DStar_new 5 2 253 (1 / 4) 10000 2"

definition open_costs :: "8 word list" where
  "open_costs = [0, 0, 0, 0, 254, 254, 254, 254, 254, 254]"

definition wall_costs :: "8 word list" where
  "wall_costs = [0, 254, 0, 0, 254, 254, 254, 254, 254, 254]"

text \<open>The open grid of ten by ten cells of the end-to-end scenarios.\<close>

definition square10 :: DStar where
  "square10 = DStar_new 10 10 253 (1 / 4) 10000 2"

text \<open>The corridor after \<^verbatim>\<open>reset\<close>, with the goal \<open>(0,0)\<close> in the open list.\<close>

definition fresh :: "8 word list \<Rightarrow> DStar" where
  "fresh costs = insert_node ((reset (corridor\<lparr>global_costmap' := costs\<rparr>))\<lparr>goal' := (0, 0)\<rparr>) (0, 0) 0"

text \<open>
  A node in the RAISE state: the goal is closed, \<open>(1,0)\<close> was opened with cost 1 and key
  1, and its cost was raised to 7 afterwards.
\<close>

definition raised :: DStar where
  "raised = insert_node (insert_node
     ((fresh open_costs)\<lparr>open_list' := [], map' := (map' (fresh open_costs))
        ((0, 0) := (map' (fresh open_costs) (0, 0))\<lparr>tag := CLOSED\<rparr>)\<rparr>) (1, 0) 1) (1, 0) 7"

text \<open>The planner after the first call in the open corridor, from \<open>(2,0)\<close> to the goal \<open>(0,0)\<close>.\<close>

definition planned :: DStar where
  "planned = (case plan 3 corridor open_costs (2, 0) (0, 0) of Some (Inr (s, r)) \<Rightarrow> s | _ \<Rightarrow> corridor)"

text \<open>
  A grid of four by four cells, upper row and last column lethal, and two cost grids for it:
  in \<open>costs_b\<close> the cell \<open>(1,2)\<close> has become lethal and the cell \<open>(2,1)\<close> free.
  \<open>after_a\<close> and \<open>after_b\<close> are the planner after a first call with \<open>costs_a\<close> and a
  second call with \<open>costs_b\<close>; \<open>at_goal\<close> is the corridor planner after a call whose
  start is the goal.
\<close>

definition square4 :: DStar where
  "square4 = DStar_new 4 4 253 (1 / 4) 10000 2"

definition costs_a :: "8 word list" where
  "costs_a = [254, 0, 254, 254,  0, 0, 254, 254,  254, 0, 0, 254,  254, 254, 254, 254]"

definition costs_b :: "8 word list" where
  "costs_b = [254, 0, 254, 254,  0, 0, 0, 254,  254, 254, 0, 254,  254, 254, 254, 254]"

definition after_a :: DStar where
  "after_a = (case plan 4 square4 costs_a (0, 1) (2, 2) of Some (Inr (s, r)) \<Rightarrow> s | _ \<Rightarrow> square4)"

definition after_b :: DStar where
  "after_b = (case plan 4 after_a costs_b (1, 0) (2, 2) of Some (Inr (s, r)) \<Rightarrow> s | _ \<Rightarrow> square4)"

definition at_goal :: DStar where
  "at_goal = (case plan 1 corridor open_costs (0, 0) (0, 0) of Some (Inr (s, r)) \<Rightarrow> s | _ \<Rightarrow> corridor)"

text \<open>The planner that a call that returned leaves behind.\<close>

definition result_state :: "(error + DStar \<times> bool \<times> Node list \<times> Node list) option \<Rightarrow> DStar option" where
  "result_state r = (case r of Some (Inr (s, found, p, e)) \<Rightarrow> Some s | _ \<Rightarrow> None)"

subsection \<open>The first search as a shortest-path search\<close>

text \<open>The cost of the edge between two cells, as \<^verbatim>\<open>processState\<close> computes it.\<close>

definition ecost :: "DStar \<Rightarrow> coord \<Rightarrow> coord \<Rightarrow> real" where
  "ecost s x y = getCost s (map' s x) (map' s y)"

text \<open>
  A cell is settled when none of its neighbours is \<^verbatim>\<open>NEW\<close> and none can be reached
  cheaper through it.
\<close>

definition settled :: "DStar \<Rightarrow> coord \<Rightarrow> bool" where
  "settled s c = (\<forall>nbs y. getNeighbours s c = Inr nbs \<and> y \<in> set nbs \<longrightarrow>
     tag (map' s y) \<noteq> NEW \<and> cost (map' s y) \<le> cost (map' s c) + ecost s c y)"

text \<open>The cell that the predecessor index of a cell names.\<close>

definition par :: "DStar \<Rightarrow> coord \<Rightarrow> coord" where
  "par s y = index2Grid s (pid (map' s y))"

text \<open>A lower bound of all keys in the open list.\<close>

definition lo :: "DStar \<Rightarrow> real \<Rightarrow> bool" where
  "lo s b = (\<forall>e \<in> set (open_list' s). b \<le> fst e)"

text \<open>
  What holds between two calls of \<^verbatim>\<open>processState\<close> as long as the cost grid is the one of
  the \<^verbatim>\<open>reset\<close>: the open list is sorted and holds every \<^verbatim>\<open>OPEN\<close> cell under its cost,
  which is its key; no closed cell costs more than a key of the list; every closed cell
  outside \<open>X\<close> is settled; and the cost of a cell with a predecessor is the cost of that
  closed predecessor plus the edge. Inside \<^verbatim>\<open>processState\<close> the popped cell is the one cell
  of \<open>X\<close>.
\<close>

definition dij_ex :: "coord set \<Rightarrow> DStar \<Rightarrow> bool" where
  "dij_ex X s =
     (wf_map s \<and> open_in_grid s \<and> sorted (map fst (open_list' s))
      \<and> (\<forall>e \<in> set (open_list' s). cost (map' s (snd e)) \<le> fst e \<and> tag (map' s (snd e)) \<noteq> NEW)
      \<and> (\<forall>c. tag (map' s c) = OPEN \<longrightarrow>
            key (map' s c) = cost (map' s c) \<and> (cost (map' s c), c) \<in> set (open_list' s))
      \<and> (\<forall>c. tag (map' s c) = CLOSED \<longrightarrow> (\<forall>e \<in> set (open_list' s). cost (map' s c) \<le> fst e))
      \<and> (\<forall>c. in_grid s c \<and> tag (map' s c) = CLOSED \<and> c \<notin> X \<longrightarrow> settled s c)
      \<and> (\<forall>y. pid (map' s y) \<noteq> - 1 \<longrightarrow>
            tag (map' s (par s y)) = CLOSED
            \<and> cost (map' s y) = cost (map' s (par s y)) + ecost s (par s y) y))"

text \<open>The two statements of every branch that re-parents \<open>y\<close> to \<open>x\<close> (source lines 167 and 168).\<close>

definition relax :: "coord \<Rightarrow> coord \<Rightarrow> real \<Rightarrow> DStar \<Rightarrow> DStar" where
  "relax x y h t = insert_node (t\<lparr>map' := (map' t)(y := (map' t y)\<lparr>pid := node_id (map' t x)\<rparr>)\<rparr>) y h"

text \<open>
  The invariant of the LOWER loop over the neighbours of the popped cell \<open>x\<close> with key
  \<open>k\<close>; \<open>seen\<close> are the neighbours the loop has dealt with.
\<close>

definition loopA :: "coord \<Rightarrow> real \<Rightarrow> DStar \<Rightarrow> coord list \<Rightarrow> DStar \<Rightarrow> bool" where
  "loopA x k s1 seen t =
     (static s1 t \<and> dij_ex {x} t \<and> lo t k \<and> tag (map' t x) = CLOSED \<and> cost (map' t x) = k
      \<and> (\<forall>c. tag (map' t c) = CLOSED \<longrightarrow> cost (map' t c) \<le> k)
      \<and> (\<forall>y \<in> set seen. tag (map' t y) \<noteq> NEW \<and> cost (map' t y) \<le> k + ecost t x y))"

text \<open>
  The keys \<^verbatim>\<open>k_old\<close> that \<open>n\<close> successive calls of \<^verbatim>\<open>processState\<close> pop, up to the call
  that finds the open list empty.
\<close>

fun pops :: "nat \<Rightarrow> DStar \<Rightarrow> real list" where
  "pops 0 s = []"
| "pops (Suc n) s =
     (case open_list' s of
        [] \<Rightarrow> []
      | e # rest \<Rightarrow> fst e # (case processState s of Inl err \<Rightarrow> [] | Inr (s', k) \<Rightarrow> pops n s'))"

text \<open>
  A grid of four by three cells, last row and last column lethal, and three calls from
  the start \<open>(2,0)\<close> to the goal \<open>(0,0)\<close>. In \<open>costs_1\<close> the only way leads over \<open>(1,1)\<close>;
  in \<open>costs_2\<close> that cell is lethal and \<open>(1,0)\<close>, \<open>(0,1)\<close> are free; in \<open>costs_3\<close> the cell
  \<open>(2,1)\<close> is lethal too. \<open>third_call\<close> is the planner of the third call after
  \<^verbatim>\<open>memcpy\<close>, and \<open>repair_start\<close> the state in which the loop of \<^verbatim>\<open>modify\<close> starts there.
\<close>

definition strip :: DStar where
  "strip = DStar_new 4 3 253 (1 / 4) 10000 2"

definition costs_1 :: "8 word list" where
  "costs_1 = [0, 254, 0, 254,  254, 0, 0, 254,  254, 254, 254, 254]"

definition costs_2 :: "8 word list" where
  "costs_2 = [0, 0, 0, 254,  0, 254, 0, 254,  254, 254, 254, 254]"

definition costs_3 :: "8 word list" where
  "costs_3 = [0, 0, 0, 254,  0, 254, 254, 254,  254, 254, 254, 254]"

definition after_1 :: DStar where
  "after_1 = (case plan 4 strip costs_1 (2, 0) (0, 0) of Some (Inr (s, r)) \<Rightarrow> s | _ \<Rightarrow> strip)"

definition after_2 :: DStar where
  "after_2 = (case plan 4 after_1 costs_2 (2, 0) (0, 0) of Some (Inr (s, r)) \<Rightarrow> s | _ \<Rightarrow> strip)"

definition third_call :: DStar where
  "third_call = after_2\<lparr>global_costmap' := costs_3\<rparr>"

definition repair_start :: DStar where
  "repair_start = insert_node third_call (2, 0)
     (cost (map' third_call (2, 1)) + getCost third_call (map' third_call (2, 0)) (map' third_call (2, 1)))"

section \<open>Properties\<close>

lemmas defs = processState_def getNeighbours_def offsets_def skipped_def in_grid_def
  isCollision_def lethal_def insert_node_def getCost_def raise_step_def lower_step_def
  raise_state_step_def first_key_def DStar_new_def initMap_def reset_def grid2Index_def
  index2Grid_def ns_def corridor_def open_costs_def wall_costs_def square10_def fresh_def
  raised_def Let_def

subsection \<open>The open list\<close>

lemma set_multimap_insert: "set (multimap_insert e xs) = insert e (set xs)"
  by (induction xs) auto

lemma length_multimap_insert: "length (multimap_insert e xs) = Suc (length xs)"
  by (induction xs) auto

lemma sorted_multimap_insert:
  "sorted (map fst xs) \<Longrightarrow> sorted (map fst (multimap_insert e xs))"
  by (induction xs) (auto simp: set_multimap_insert)

text \<open>
  C7: \<^verbatim>\<open>insert\<close> computes the key from the tag (the new cost for a NEW node, the minimum
  of the old key and the new cost for an OPEN node, the minimum of the old cost and the new
  cost for a CLOSED node), then stores the new cost and the tag OPEN in the node and puts the
  node into the open list at that key. The list stays sorted, no other node changes, and the
  predecessor of the node stays.
\<close>

theorem insert_node_sets_key_cost_tag:
  assumes "s' = insert_node s c h_new"
    and "k = (case tag (map' s c) of NEW \<Rightarrow> h_new | OPEN \<Rightarrow> min (key (map' s c)) h_new
               | CLOSED \<Rightarrow> min (cost (map' s c)) h_new)"
  shows "key (map' s' c) = k \<and> cost (map' s' c) = h_new \<and> tag (map' s' c) = OPEN
       \<and> open_list' s' = multimap_insert (k, c) (open_list' s)
       \<and> set (open_list' s') = insert (k, c) (set (open_list' s))
       \<and> (sorted (map fst (open_list' s)) \<longrightarrow> sorted (map fst (open_list' s')))
       \<and> (\<forall>c'. c' \<noteq> c \<longrightarrow> map' s' c' = map' s c')
       \<and> pid (map' s' c) = pid (map' s c)"
  using assms by (simp add: insert_node_def Let_def set_multimap_insert sorted_multimap_insert)

text \<open>
  The theorem at the node \<open>(1,0)\<close> of the example \<open>raised\<close>, which is OPEN with key 1
  and cost 7, inserted with the new cost 3: the key stays 1 and the cost becomes 3.
\<close>

theorem insert_node_sets_key_cost_tag_witness:
  "key (map' (insert_node raised (1, 0) 3) (1, 0)) = 1
   \<and> cost (map' (insert_node raised (1, 0) 3) (1, 0)) = 3
   \<and> tag (map' (insert_node raised (1, 0) 3) (1, 0)) = OPEN
   \<and> open_list' (insert_node raised (1, 0) 3) = [(1, (1, 0)), (1, (1, 0)), (1, (1, 0))]
   \<and> sorted (map fst (open_list' raised))
   \<and> sorted (map fst (open_list' (insert_node raised (1, 0) 3)))
   \<and> map' (insert_node raised (1, 0) 3) (0, 0) = map' raised (0, 0)"
proof -
  have tg: "tag (map' raised (1, 0)) = OPEN" and ky: "key (map' raised (1, 0)) = 1"
    and ol: "open_list' raised = [(1, (1, 0)), (1, (1, 0))]"
    by (simp_all add: defs)
  have k: "(1::real) = (case tag (map' raised (1, 0)) of NEW \<Rightarrow> 3
      | OPEN \<Rightarrow> min (key (map' raised (1, 0))) 3 | CLOSED \<Rightarrow> min (cost (map' raised (1, 0))) 3)"
    by (simp add: tg ky)
  have srt: "sorted (map fst (open_list' raised))"
    by (simp add: ol)
  from insert_node_sets_key_cost_tag [OF refl k] srt ol show ?thesis
    by simp
qed

subsection \<open>The RAISE propagation step\<close>

lemma only_cost_pid_refl: "only_cost_pid x s s"
  by (simp add: only_cost_pid_def)

lemma only_cost_pid_trans:
  assumes "only_cost_pid x s t" and "only_cost_pid x t u"
  shows "only_cost_pid x s u"
proof -
  from assms(1) have t: "t = s\<lparr>map' := (map' s)(x := (map' s x)\<lparr>cost := cost (map' t x), pid := pid (map' t x)\<rparr>)\<rparr>"
    by (simp add: only_cost_pid_def)
  from assms(2) have u: "u = t\<lparr>map' := (map' t)(x := (map' t x)\<lparr>cost := cost (map' u x), pid := pid (map' u x)\<rparr>)\<rparr>"
    by (simp add: only_cost_pid_def)
  show ?thesis
    unfolding only_cost_pid_def
    by (subst u, subst t, subst (2) t, subst (3) t) simp
qed

lemma raise_step_frame: "only_cost_pid x s (raise_step x k y s)"
  by (simp add: raise_step_def only_cost_pid_def Let_def)

lemma raise_fold_frame: "only_cost_pid x s (fold (raise_step x k) ys s)"
proof (induction ys arbitrary: s)
  case Nil
  show ?case by (simp add: only_cost_pid_refl)
next
  case (Cons y ys)
  have "only_cost_pid x (raise_step x k y s) (fold (raise_step x k) ys (raise_step x k y s))"
    by (rule Cons.IH)
  with raise_step_frame [of x s k y] show ?case
    by (auto intro: only_cost_pid_trans)
qed

lemma raise_step_cost_le: "cost (map' (raise_step x k y s) x) \<le> cost (map' s x)"
  by (simp add: raise_step_def Let_def)

lemma raise_fold_cost_le: "cost (map' (fold (raise_step x k) ys s) x) \<le> cost (map' s x)"
proof (induction ys arbitrary: s)
  case Nil
  show ?case by simp
next
  case (Cons y ys)
  have "cost (map' (fold (raise_step x k) ys (raise_step x k y s)) x) \<le> cost (map' (raise_step x k y s) x)"
    by (rule Cons.IH)
  also have "\<dots> \<le> cost (map' s x)" by (rule raise_step_cost_le)
  finally show ?case by simp
qed

text \<open>
  C8: a call of \<^verbatim>\<open>processState\<close> that pops \<open>(k_old, x)\<close> with \<open>k_old\<close> below the cost of
  \<open>x\<close> runs the first loop over the neighbours. Let \<open>sy\<close> be the state in which the loop
  reaches the neighbour \<open>y\<close>. If the cost of \<open>y\<close> is at most \<open>k_old\<close> and the cost of \<open>x\<close>
  is above the cost of \<open>y\<close> plus the edge cost, the round sets the predecessor of \<open>x\<close> to
  \<open>y\<close> and the cost of \<open>x\<close> to that sum; otherwise the round changes nothing. The whole
  loop changes nothing but the cost and the predecessor of \<open>x\<close>, and never raises the cost.
\<close>

theorem raise_propagation:
  assumes pop: "open_list' s = (k_old, x) # rest"
    and s1: "s1 = s\<lparr>open_list' := rest, map' := (map' s)(x := (map' s x)\<lparr>tag := CLOSED\<rparr>)\<rparr>"
    and nb: "getNeighbours s1 x = Inr (pre @ y # post)"
    and stale: "k_old < cost (map' s x)"
    and sy: "sy = fold (raise_step x k_old) pre s1"
    and sy': "sy' = raise_step x k_old y sy"
    and s2: "s2 = fold (raise_step x k_old) post sy'"
    and s3: "s3 = (if k_old = cost (map' s2 x) then fold (lower_step x) (pre @ y # post) s2
                   else fold (raise_state_step x k_old) (pre @ y # post) s2)"
  shows "processState s = Inr (s3, first_key s3)
       \<and> (cost (map' sy y) \<le> k_old
            \<and> cost (map' sy x) > cost (map' sy y) + getCost sy (map' sy y) (map' sy x)
          \<longrightarrow> pid (map' sy' x) = node_id (map' sy y)
            \<and> cost (map' sy' x) = cost (map' sy y) + getCost sy (map' sy y) (map' sy x))
       \<and> (\<not> (cost (map' sy y) \<le> k_old
               \<and> cost (map' sy x) > cost (map' sy y) + getCost sy (map' sy y) (map' sy x))
          \<longrightarrow> sy' = sy)
       \<and> only_cost_pid x s1 sy \<and> only_cost_pid x sy sy' \<and> only_cost_pid x s1 s2
       \<and> cost (map' s2 x) \<le> cost (map' s x)"
proof -
  have fold_all: "fold (raise_step x k_old) (pre @ y # post) s1 = s2"
    by (simp add: s2 sy' sy)
  have "cost (map' s1 x) = cost (map' s x)"
    by (simp add: s1)
  with stale have "k_old < cost (map' s1 x)" by simp
  then have run: "processState s = Inr (s3, first_key s3)"
    using pop nb fold_all s1 s3 by (simp add: processState_def Let_def)
  have step: "cost (map' sy y) \<le> k_old
            \<and> cost (map' sy x) > cost (map' sy y) + getCost sy (map' sy y) (map' sy x)
          \<longrightarrow> pid (map' sy' x) = node_id (map' sy y)
            \<and> cost (map' sy' x) = cost (map' sy y) + getCost sy (map' sy y) (map' sy x)"
    by (simp add: sy' raise_step_def Let_def)
  have skip: "\<not> (cost (map' sy y) \<le> k_old
               \<and> cost (map' sy x) > cost (map' sy y) + getCost sy (map' sy y) (map' sy x))
          \<longrightarrow> sy' = sy"
    by (auto simp add: sy' raise_step_def Let_def)
  have f1: "only_cost_pid x s1 sy"
    unfolding sy by (rule raise_fold_frame)
  have f2: "only_cost_pid x sy sy'"
    unfolding sy' by (rule raise_step_frame)
  have f3: "only_cost_pid x s1 s2"
    unfolding fold_all [symmetric] by (rule raise_fold_frame)
  have "cost (map' s2 x) \<le> cost (map' s1 x)"
    unfolding fold_all [symmetric] by (rule raise_fold_cost_le)
  then have le: "cost (map' s2 x) \<le> cost (map' s x)"
    by (simp add: s1)
  from run step skip f1 f2 f3 le show ?thesis by blast
qed

text \<open>
  The theorem at the example \<open>raised\<close>: \<open>(1,0)\<close> is popped with key 1 and cost 7, its
  neighbours are the goal \<open>(0,0)\<close> of cost 0 and the new node \<open>(2,0)\<close>. The round for
  the goal sets the predecessor of \<open>(1,0)\<close> to the goal (index 0) and its cost to 1.
\<close>

theorem raise_propagation_witness:
  "open_list' raised = [(1, (1, 0)), (1, (1, 0))]
   \<and> 1 < cost (map' raised (1, 0))
   \<and> getNeighbours (raised\<lparr>open_list' := [(1, (1, 0))],
        map' := (map' raised)((1, 0) := (map' raised (1, 0))\<lparr>tag := CLOSED\<rparr>)\<rparr>) (1, 0)
      = Inr [(0, 0), (2, 0)]
   \<and> pid (map' (raise_step (1, 0) 1 (0, 0) (raised\<lparr>open_list' := [(1, (1, 0))],
        map' := (map' raised)((1, 0) := (map' raised (1, 0))\<lparr>tag := CLOSED\<rparr>)\<rparr>)) (1, 0)) = 0
   \<and> cost (map' (raise_step (1, 0) 1 (0, 0) (raised\<lparr>open_list' := [(1, (1, 0))],
        map' := (map' raised)((1, 0) := (map' raised (1, 0))\<lparr>tag := CLOSED\<rparr>)\<rparr>)) (1, 0)) = 1
   \<and> map_sum id snd (processState raised) = Inr (KMin 1)"
proof -
  let ?s1 = "raised\<lparr>open_list' := [(1, (1, 0))],
        map' := (map' raised)((1, 0) := (map' raised (1, 0))\<lparr>tag := CLOSED\<rparr>)\<rparr>"
  have pop: "open_list' raised = (1, (1, 0)) # [(1, (1, 0))]"
    by (simp add: defs)
  have nb: "getNeighbours ?s1 (1, 0) = Inr ([] @ (0, 0) # [(2, 0)])"
    by (simp add: defs)
  have stale: "1 < cost (map' raised (1, 0))"
    by (simp add: defs)
  let ?sy = "fold (raise_step (1, 0) 1) [] ?s1"
  note run = raise_propagation [OF pop refl nb stale refl refl refl refl]
  have prem: "cost (map' ?sy (0, 0)) \<le> 1
      \<and> cost (map' ?sy (1, 0)) > cost (map' ?sy (0, 0)) + getCost ?sy (map' ?sy (0, 0)) (map' ?sy (1, 0))"
    by (simp add: defs)
  have res: "pid (map' (raise_step (1, 0) 1 (0, 0) ?sy) (1, 0)) = node_id (map' ?sy (0, 0))
      \<and> cost (map' (raise_step (1, 0) 1 (0, 0) ?sy) (1, 0))
        = cost (map' ?sy (0, 0)) + getCost ?sy (map' ?sy (0, 0)) (map' ?sy (1, 0))"
    by (rule run [THEN conjunct2, THEN conjunct1, THEN mp, OF prem])
  have vals: "node_id (map' ?sy (0, 0)) = 0"
    "cost (map' ?sy (0, 0)) + getCost ?sy (map' ?sy (0, 0)) (map' ?sy (1, 0)) = 1"
    by (simp_all add: defs)
  have sy_eq: "?sy = ?s1" by simp
  from res have "pid (map' (raise_step (1, 0) 1 (0, 0) ?sy) (1, 0)) = 0
      \<and> cost (map' (raise_step (1, 0) 1 (0, 0) ?sy) (1, 0)) = 1"
    unfolding vals .
  then have step: "pid (map' (raise_step (1, 0) 1 (0, 0) ?s1) (1, 0)) = 0
      \<and> cost (map' (raise_step (1, 0) 1 (0, 0) ?s1) (1, 0)) = 1"
    by (simp only: sy_eq)
  have ret: "map_sum id snd (processState raised) = Inr (KMin 1)"
    by (simp add: defs)
  from pop nb stale step ret show ?thesis
    by (simp only: append_Nil simp_thms)
qed

subsection \<open>The value returned by processState\<close>

lemma processState_empty: "open_list' s = [] \<Longrightarrow> processState s = Inr (s, KMin (- 1))"
  by (simp add: processState_def)

lemma processState_nonempty:
  assumes "open_list' s \<noteq> []" and "processState s = Inr (s', r)"
  shows "r = first_key s'"
  using assms
  by (auto simp: processState_def Let_def split: list.splits sum.splits prod.splits)

lemma first_key_empty: "open_list' s = [] \<Longrightarrow> first_key s = PastEnd"
  by (simp add: first_key_def)

text \<open>
  C3: the sentinel \<open>- 1\<close> is returned when the open list is empty on entry
  (\<open>processState_empty\<close>). At the end of a call that has popped a node the source returns
  the key at \<^verbatim>\<open>begin()\<close> and does not look whether the list is empty
  (\<open>processState_nonempty\<close>, \<open>first_key_empty\<close>). In the corridor with the wall the goal
  \<open>(0,0)\<close> has no free neighbour: the first call pops the goal, inserts nothing, and reads
  the minimum of the empty list.
\<close>

theorem processState_reads_empty_list:
  "open_list' (fresh wall_costs) = [(0, (0, 0))]
   \<and> map_sum id (\<lambda>(s, k). (open_list' s, k)) (processState (fresh wall_costs)) = Inr ([], PastEnd)"
  by (simp add: defs)

subsection \<open>The bounds test of getNeighbours\<close>

text \<open>
  C5: the bounds test lets the column \<^verbatim>\<open>nx_\<close> and the row \<^verbatim>\<open>ny_\<close> pass. On the open grid
  of ten by ten cells with the goal \<open>(9,9)\<close>, the first call of \<^verbatim>\<open>processState\<close> pops the
  goal, and \<^verbatim>\<open>getNeighbours\<close> reads \<^verbatim>\<open>map_[8][10]\<close>, a cell outside the grid; so does
  \<^verbatim>\<open>plan\<close> with this goal, whatever the fuel.
\<close>

theorem getNeighbours_reads_past_grid:
  "in_grid (insert_node ((reset (square10\<lparr>global_costmap' := replicate 100 0\<rparr>))\<lparr>goal' := (9, 9)\<rparr>) (9, 9) 0) (9, 9)
   \<and> getNeighbours (insert_node ((reset (square10\<lparr>global_costmap' := replicate 100 0\<rparr>))\<lparr>goal' := (9, 9)\<rparr>) (9, 9) 0) (9, 9) = Inl OutOfBounds
   \<and> (\<forall>fuel. plan (Suc fuel) square10 (replicate 100 0) (0, 0) (9, 9) = Some (Inl OutOfBounds))"
  by (simp add: defs plan_def)

subsection \<open>Evaluating the examples\<close>

lemma walk_two: "walk fuel 2 = walk fuel (Suc (Suc 0))"
  by (simp add: numeral_2_eq_2)

lemma plan_three: "plan 3 = plan (Suc (Suc (Suc 0)))"
  by (simp add: numeral_3_eq_3)

lemma run_three: "run 3 = run (Suc (Suc (Suc 0)))"
  by (simp add: numeral_3_eq_3)

lemmas pdefs = plan_def finish_def extractPath_def extractExpand_def cells_def getState_def dis_def
  modify_def planned_def Node.truncate_def signed_divide_int_def signed_modulo_int_def
  upto.simps walk_two plan_three run_three result_path_def coords_def

lemma first_call: "\<exists>p e. plan 3 corridor open_costs (2, 0) (0, 0) = Some (Inr (planned, True, p, e))"
  by (simp add: defs pdefs)

subsection \<open>What the search never changes\<close>

lemma static_refl: "static s s"
  by (simp add: static_def)

lemma static_trans: "static s t \<Longrightarrow> static t u \<Longrightarrow> static s u"
  by (simp add: static_def)

lemma static_insert_node: "static s (insert_node s c h)"
  by (simp add: static_def insert_node_def Let_def)

lemma static_raise_step: "static s (raise_step x k y s)"
  by (simp add: static_def raise_step_def Let_def)

lemma static_lower_step: "static s (lower_step x y s)"
  by (simp add: static_def lower_step_def insert_node_def Let_def)

lemma static_raise_state_step: "static s (raise_state_step x k y s)"
  by (simp add: static_def raise_state_step_def insert_node_def Let_def)

lemma static_fold:
  assumes "\<And>y s. static s (f y s)"
  shows "static s (fold f ys s)"
proof (induction ys arbitrary: s)
  case Nil
  show ?case by (simp add: static_refl)
next
  case (Cons y ys)
  have "static s (f y s)" by (rule assms)
  moreover have "static (f y s) (fold f ys (f y s))" by (rule Cons.IH)
  ultimately show ?case by (auto intro: static_trans)
qed

lemma processState_cases:
  assumes "processState s = Inr (s', r)"
  obtains (empty) "open_list' s = []" and "s' = s" and "r = KMin (- 1)"
  | (pop) k_old x rest nbs s1 s2
    where "open_list' s = (k_old, x) # rest"
      and "s1 = s\<lparr>open_list' := rest, map' := (map' s)(x := (map' s x)\<lparr>tag := CLOSED\<rparr>)\<rparr>"
      and "getNeighbours s1 x = Inr nbs"
      and "s2 = (if k_old < cost (map' s1 x) then fold (raise_step x k_old) nbs s1 else s1)"
      and "s' = (if k_old = cost (map' s2 x) then fold (lower_step x) nbs s2
                 else fold (raise_state_step x k_old) nbs s2)"
      and "r = first_key s'"
proof (cases "open_list' s")
  case Nil
  with assms have "s' = s" and "r = KMin (- 1)"
    by (simp_all add: processState_def)
  with Nil show ?thesis by (rule empty)
next
  case (Cons e rest)
  obtain k_old x where e: "e = (k_old, x)" by (cases e)
  let ?s1 = "s\<lparr>open_list' := rest, map' := (map' s)(x := (map' s x)\<lparr>tag := CLOSED\<rparr>)\<rparr>"
  have unfolded: "processState s = (case getNeighbours ?s1 x of Inl e \<Rightarrow> Inl e | Inr nbs \<Rightarrow>
       (let s2 = (if k_old < cost (map' ?s1 x) then fold (raise_step x k_old) nbs ?s1 else ?s1);
            s3 = (if k_old = cost (map' s2 x) then fold (lower_step x) nbs s2
                  else fold (raise_state_step x k_old) nbs s2)
        in Inr (s3, first_key s3)))"
    unfolding processState_def Cons e by (simp add: Let_def)
  from assms obtain nbs where nbs: "getNeighbours ?s1 x = Inr nbs"
    unfolding unfolded by (cases "getNeighbours ?s1 x") simp_all
  let ?s2 = "if k_old < cost (map' ?s1 x) then fold (raise_step x k_old) nbs ?s1 else ?s1"
  from assms have s': "s' = (if k_old = cost (map' ?s2 x) then fold (lower_step x) nbs ?s2
                 else fold (raise_state_step x k_old) nbs ?s2)" and r: "r = first_key s'"
    unfolding unfolded nbs by (auto simp: Let_def)
  from Cons e have "open_list' s = (k_old, x) # rest" by simp
  then show ?thesis using refl nbs refl s' r by (rule pop)
qed

lemma static_processState:
  assumes "processState s = Inr (s', r)"
  shows "static s s'"
  using assms
proof (cases rule: processState_cases)
  case empty
  then show ?thesis by (simp add: static_refl)
next
  case (pop k_old x rest nbs s1 s2)
  have a: "static s s1" by (simp add: static_def pop(2))
  have b: "static s1 s2"
    by (simp add: pop(4) static_refl static_fold static_raise_step)
  have c: "static s2 s'"
    by (simp add: pop(5) static_fold static_lower_step static_raise_state_step)
  from a b c show ?thesis by (auto intro: static_trans)
qed

lemma static_run: "run n s = Inr s' \<Longrightarrow> static s s'"
proof (induction n arbitrary: s)
  case 0
  then show ?case by (simp add: static_refl)
next
  case (Suc n)
  from Suc.prems obtain s1 k where ps: "processState s = Inr (s1, k)" and rest: "run n s1 = Inr s'"
    by (auto split: sum.splits)
  from ps have "static s s1" by (rule static_processState)
  moreover from rest have "static s1 s'" by (rule Suc.IH)
  ultimately show ?case by (rule static_trans)
qed

lemma static_plan_loop: "plan_loop fuel s start = Some (Inr s') \<Longrightarrow> static s s'"
proof (induction fuel arbitrary: s)
  case 0
  then show ?case by simp
next
  case (Suc fuel)
  from Suc.prems obtain s1 k where ps: "processState s = Inr (s1, k)"
    and rest: "(tag (map' s1 start) = CLOSED \<and> s' = s1)
             \<or> (tag (map' s1 start) \<noteq> CLOSED \<and> plan_loop fuel s1 start = Some (Inr s'))"
    by (auto split: sum.splits if_splits)
  from ps have a: "static s s1" by (rule static_processState)
  from rest show ?case
  proof
    assume "tag (map' s1 start) = CLOSED \<and> s' = s1"
    with a show ?thesis by simp
  next
    assume "tag (map' s1 start) \<noteq> CLOSED \<and> plan_loop fuel s1 start = Some (Inr s')"
    then have "static s1 s'" by (simp add: Suc.IH)
    with a show ?thesis by (rule static_trans)
  qed
qed

lemma static_wf_map: "static s t \<Longrightarrow> wf_map s \<Longrightarrow> wf_map t"
  by (simp add: static_def wf_map_def coords_def grid2Index_def)

lemma static_in_grid: "static s t \<Longrightarrow> in_grid t c = in_grid s c"
  by (simp add: static_def in_grid_def)

lemma wf_map_reset: "wf_map (reset s)"
  by (simp add: wf_map_def reset_def initMap_def coords_def grid2Index_def split: prod.splits)

subsection \<open>The goal during the search\<close>

lemma fold_invariant:
  assumes "P s" and "\<And>y t. y \<in> set ys \<Longrightarrow> P t \<Longrightarrow> P (f y t)"
  shows "P (fold f ys s)"
  using assms by (induction ys arbitrary: s) simp_all

lemma getNeighbours_loop_in_grid:
  "getNeighbours_loop s c offs acc = Inr nbs \<Longrightarrow> \<forall>y \<in> set acc. in_grid s y
     \<Longrightarrow> \<forall>y \<in> set nbs. in_grid s y"
proof (induction offs arbitrary: acc)
  case Nil
  then show ?case by simp
next
  case (Cons off offs)
  obtain i j where off: "off = (i, j)" by (cases off)
  from Cons.prems show ?case
    unfolding off by (auto simp: Let_def split: if_splits dest!: Cons.IH)
qed

lemma getNeighbours_in_grid: "getNeighbours s c = Inr nbs \<Longrightarrow> y \<in> set nbs \<Longrightarrow> in_grid s y"
  using getNeighbours_loop_in_grid [of s c offsets "[]" nbs] by (simp add: getNeighbours_def)

lemma getCost_nonneg: "0 \<le> INF' s \<Longrightarrow> 0 \<le> getCost s a b"
  by (simp add: getCost_def)

lemma in_grid_id:
  assumes "wf_map s" and "in_grid s c"
  shows "0 \<le> node_id (map' s c)"
proof -
  from assms(2) have "0 \<le> fst c" and "0 \<le> nx' s" and "0 \<le> snd c"
    by (simp_all add: in_grid_def)
  then have "0 \<le> fst c + nx' s * snd c" by simp
  moreover from assms(1) have "node_id (map' s c) = fst c + nx' s * snd c"
    unfolding wf_map_def grid2Index_def by blast
  ultimately show ?thesis by simp
qed

lemma goal_inv_cost: "goal_inv g s \<Longrightarrow> 0 \<le> cost (map' s c)"
  unfolding goal_inv_def by blast

lemma goal_inv_sum: "goal_inv g s \<Longrightarrow> 0 \<le> cost (map' s c) + getCost s a b"
  using goal_inv_cost [of g s c] getCost_nonneg [of s a b] by (simp add: goal_inv_def)

lemma goal_invI:
  assumes "goal_inv g s" and "static s t"
    and "cost (map' t g) = 0" and "pid (map' t g) = - 1" and "tag (map' t g) \<noteq> NEW"
    and "\<And>c. 0 \<le> cost (map' t c)" and "\<And>e. e \<in> set (open_list' t) \<Longrightarrow> in_grid s (snd e)"
  shows "goal_inv g t"
proof -
  from assms(1,2) have "wf_map t" by (auto simp: goal_inv_def dest: static_wf_map)
  moreover from assms(1,2) have "0 \<le> INF' t" by (simp add: goal_inv_def static_def)
  moreover from assms(1,2) have "in_grid t g" by (simp add: goal_inv_def static_in_grid)
  moreover from assms(2,7) have "\<forall>e \<in> set (open_list' t). in_grid t (snd e)"
    by (simp add: static_in_grid)
  ultimately show ?thesis using assms(3-6) by (simp add: goal_inv_def)
qed

lemma goal_inv_insert_other:
  assumes "goal_inv g s" and "in_grid s c" and "c \<noteq> g" and "0 \<le> h"
  shows "goal_inv g (insert_node s c h)"
  using assms(1)
proof (rule goal_invI)
  show "static s (insert_node s c h)" by (rule static_insert_node)
  show "\<And>e. e \<in> set (open_list' (insert_node s c h)) \<Longrightarrow> in_grid s (snd e)"
    using assms(1,2) by (auto simp: insert_node_def Let_def set_multimap_insert goal_inv_def)
qed (use assms in \<open>auto simp: insert_node_def Let_def goal_inv_def\<close>)

lemma goal_inv_insert_same:
  assumes "goal_inv g s" and "in_grid s c"
  shows "goal_inv g (insert_node s c (cost (map' s c)))"
  using assms(1)
proof (rule goal_invI)
  show "static s (insert_node s c (cost (map' s c)))" by (rule static_insert_node)
  show "\<And>e. e \<in> set (open_list' (insert_node s c (cost (map' s c)))) \<Longrightarrow> in_grid s (snd e)"
    using assms by (auto simp: insert_node_def Let_def set_multimap_insert goal_inv_def)
qed (use assms in \<open>auto simp: insert_node_def Let_def goal_inv_def\<close>)

lemma goal_inv_set_pid:
  assumes "goal_inv g s" and "c \<noteq> g"
  shows "goal_inv g (s\<lparr>map' := (map' s)(c := (map' s c)\<lparr>pid := p\<rparr>)\<rparr>)"
  using assms(1)
proof (rule goal_invI)
  show "static s (s\<lparr>map' := (map' s)(c := (map' s c)\<lparr>pid := p\<rparr>)\<rparr>)"
    by (simp add: static_def)
qed (use assms in \<open>auto simp: goal_inv_def\<close>)

lemma goal_not_relaxed:
  assumes "goal_inv g s" and "in_grid s x"
  shows "\<not> (tag (map' s g) = NEW
           \<or> (pid (map' s g) = node_id (map' s x) \<and> cost (map' s g) \<noteq> h)
           \<or> (pid (map' s g) \<noteq> node_id (map' s x)
               \<and> cost (map' s g) > cost (map' s x) + getCost s (map' s x) (map' s g)))"
proof -
  from assms have "0 \<le> node_id (map' s x)" by (simp add: goal_inv_def in_grid_id)
  moreover from assms have "0 \<le> cost (map' s x) + getCost s (map' s x) (map' s g)"
    by (simp add: goal_inv_sum)
  ultimately show ?thesis using assms(1) by (auto simp: goal_inv_def)
qed

lemma goal_inv_in_grid: "goal_inv g s \<Longrightarrow> in_grid (s\<lparr>map' := m\<rparr>) c = in_grid s c"
  by (simp add: in_grid_def)

lemma goal_inv_lower_step:
  assumes inv: "goal_inv g s" and x: "in_grid s x" and y: "in_grid s y"
  shows "goal_inv g (lower_step x y s)"
proof (cases "y = g")
  case True
  with goal_not_relaxed [OF inv x, of "cost (map' s x) + getCost s (map' s x) (map' s g)"] inv
  show ?thesis
    by (auto simp: lower_step_def Let_def)
next
  case False
  let ?t = "s\<lparr>map' := (map' s)(y := (map' s y)\<lparr>pid := node_id (map' s x)\<rparr>)\<rparr>"
  have t: "goal_inv g ?t" using inv False by (rule goal_inv_set_pid)
  have yt: "in_grid ?t y" using y by (simp add: in_grid_def)
  from inv have "0 \<le> cost (map' s x) + getCost s (map' s x) (map' s y)"
    by (rule goal_inv_sum)
  with t yt False have "goal_inv g (insert_node ?t y (cost (map' s x) + getCost s (map' s x) (map' s y)))"
    by (rule goal_inv_insert_other)
  with inv show ?thesis by (simp add: lower_step_def Let_def)
qed

lemma goal_inv_raise_state_step:
  assumes inv: "goal_inv g s" and x: "in_grid s x" and y: "in_grid s y"
  shows "goal_inv g (raise_state_step x k y s)"
proof -
  let ?h = "cost (map' s x) + getCost s (map' s x) (map' s y)"
  let ?t = "s\<lparr>map' := (map' s)(y := (map' s y)\<lparr>pid := node_id (map' s x)\<rparr>)\<rparr>"
  have first: "goal_inv g (insert_node ?t y ?h)"
    if c: "tag (map' s y) = NEW \<or> (pid (map' s y) = node_id (map' s x) \<and> cost (map' s y) \<noteq> ?h)"
  proof -
    from c goal_not_relaxed [OF inv x, of ?h] have ne: "y \<noteq> g" by auto
    have t: "goal_inv g ?t" using inv ne by (rule goal_inv_set_pid)
    have yt: "in_grid ?t y" using y by (simp add: in_grid_def)
    from inv have "0 \<le> ?h" by (rule goal_inv_sum)
    with t yt ne show ?thesis by (rule goal_inv_insert_other)
  qed
  have second: "goal_inv g (insert_node s x (cost (map' s x)))"
    using inv x by (rule goal_inv_insert_same)
  have third: "goal_inv g (insert_node s y (cost (map' s y)))"
    using inv y by (rule goal_inv_insert_same)
  from inv first second third show ?thesis
    by (simp add: raise_state_step_def Let_def)
qed

lemma goal_inv_raise_step:
  assumes inv: "goal_inv g s" and x: "in_grid s x" and y: "in_grid s y"
  shows "goal_inv g (raise_step x k y s)"
proof (cases "cost (map' s y) \<le> k \<and> cost (map' s x) > cost (map' s y) + getCost s (map' s y) (map' s x)")
  case False
  with inv show ?thesis by (auto simp: raise_step_def Let_def)
next
  case True
  from inv have h: "0 \<le> cost (map' s y) + getCost s (map' s y) (map' s x)"
    by (rule goal_inv_sum)
  with True inv have ne: "x \<noteq> g" by (auto simp: goal_inv_def)
  let ?t = "s\<lparr>map' := (map' s)(x := (map' s x)\<lparr>cost := cost (map' s y) + getCost s (map' s y) (map' s x),
      pid := node_id (map' s y)\<rparr>)\<rparr>"
  have "goal_inv g ?t"
    using inv
  proof (rule goal_invI)
    show "static s ?t" by (simp add: static_def)
  qed (use inv ne h in \<open>auto simp: goal_inv_def\<close>)
  with True show ?thesis by (simp add: raise_step_def Let_def)
qed

lemma goal_inv_fold:
  assumes step: "\<And>y t. goal_inv g t \<Longrightarrow> in_grid t x \<Longrightarrow> in_grid t y \<Longrightarrow> goal_inv g (f y t)"
    and st: "\<And>y t. static t (f y t)"
    and inv: "goal_inv g s" and x: "in_grid s x" and ys: "\<forall>y \<in> set ys. in_grid s y"
  shows "goal_inv g (fold f ys s)"
proof -
  have "goal_inv g (fold f ys s) \<and> static s (fold f ys s)"
  proof (rule fold_invariant [where P = "\<lambda>t. goal_inv g t \<and> static s t"])
    show "goal_inv g s \<and> static s s" using inv by (simp add: static_refl)
  next
    fix y t
    assume y: "y \<in> set ys" and t: "goal_inv g t \<and> static s t"
    from t x have "in_grid t x" using static_in_grid [of s t x] by simp
    moreover from t ys y have "in_grid t y" using static_in_grid [of s t y] by simp
    ultimately have "goal_inv g (f y t)" using t by (simp add: step)
    moreover have "static s (f y t)" using t st by (blast intro: static_trans)
    ultimately show "goal_inv g (f y t) \<and> static s (f y t)" ..
  qed
  then show ?thesis ..
qed

lemma goal_inv_processState:
  assumes inv: "goal_inv g s" and run: "processState s = Inr (s', r)"
  shows "goal_inv g s'"
  using run
proof (cases rule: processState_cases)
  case empty
  with inv show ?thesis by simp
next
  case (pop k_old x rest nbs s1 s2)
  from inv pop(1) have x: "in_grid s x" by (auto simp: goal_inv_def)
  have st1: "static s s1" by (simp add: pop(2) static_def)
  have inv1: "goal_inv g s1"
    using inv st1
  proof (rule goal_invI)
    show "\<And>e. e \<in> set (open_list' s1) \<Longrightarrow> in_grid s (snd e)"
      using inv pop(1) by (auto simp: pop(2) goal_inv_def)
  qed (use inv in \<open>auto simp: pop(2) goal_inv_def\<close>)
  from x st1 have x1: "in_grid s1 x" by (simp add: static_in_grid)
  from pop(3) have nb1: "\<forall>y \<in> set nbs. in_grid s1 y" by (auto dest: getNeighbours_in_grid)
  have st2: "static s1 s2"
    by (simp add: pop(4) static_refl static_fold static_raise_step)
  have inv2: "goal_inv g s2"
    unfolding pop(4) using inv1 x1 nb1
    by (auto intro!: goal_inv_fold goal_inv_raise_step static_raise_step)
  from x1 st2 have x2: "in_grid s2 x" by (simp add: static_in_grid)
  from nb1 st2 have nb2: "\<forall>y \<in> set nbs. in_grid s2 y" by (simp add: static_in_grid)
  show ?thesis
    unfolding pop(5) using inv2 x2 nb2
    by (auto intro!: goal_inv_fold goal_inv_lower_step goal_inv_raise_state_step
        static_lower_step static_raise_state_step)
qed

lemma goal_inv_run: "goal_inv g s \<Longrightarrow> run n s = Inr s' \<Longrightarrow> goal_inv g s'"
proof (induction n arbitrary: s)
  case 0
  then show ?case by simp
next
  case (Suc n)
  from Suc.prems(2) obtain s1 k where ps: "processState s = Inr (s1, k)" and rest: "run n s1 = Inr s'"
    by (auto split: sum.splits)
  from Suc.prems(1) ps have "goal_inv g s1" by (rule goal_inv_processState)
  then show ?case using rest by (rule Suc.IH)
qed

lemma goal_inv_fresh:
  assumes "0 \<le> INF' s" and "in_grid s g"
  shows "goal_inv g (insert_node ((reset s)\<lparr>goal' := g\<rparr>) g 0)"
proof -
  have "wf_map ((reset s)\<lparr>goal' := g\<rparr>)"
    using wf_map_reset [of s] by (simp add: wf_map_def grid2Index_def)
  then have "wf_map (insert_node ((reset s)\<lparr>goal' := g\<rparr>) g 0)"
    using static_insert_node by (rule static_wf_map [rotated])
  then show ?thesis using assms
    by (auto simp: goal_inv_def insert_node_def Let_def reset_def initMap_def in_grid_def
        split: prod.splits)
qed

text \<open>
  C10: after the goal \<open>g\<close> has been inserted with cost 0 into the map that \<^verbatim>\<open>reset\<close> has
  built, any number of calls of \<^verbatim>\<open>processState\<close> that return leave the cost of the goal at
  0 and its predecessor index at \<open>- 1\<close>. The goal is a cell of the grid and the macro
  \<^verbatim>\<open>INF\<close> is not negative.
\<close>

theorem goal_stays_root:
  assumes "0 \<le> INF' s0" and "in_grid s0 g"
    and "run n (insert_node ((reset s0)\<lparr>goal' := g\<rparr>) g 0) = Inr s'"
  shows "cost (map' s' g) = 0 \<and> pid (map' s' g) = - 1"
proof -
  from assms(1,2) have "goal_inv g (insert_node ((reset s0)\<lparr>goal' := g\<rparr>) g 0)"
    by (rule goal_inv_fresh)
  then have "goal_inv g s'" using assms(3) by (rule goal_inv_run)
  then show ?thesis by (simp add: goal_inv_def)
qed

text \<open>The theorem after three calls in the open corridor, with the goal \<open>(0,0)\<close>.\<close>

theorem goal_stays_root_witness:
  "0 \<le> INF' (corridor\<lparr>global_costmap' := open_costs\<rparr>)
   \<and> in_grid (corridor\<lparr>global_costmap' := open_costs\<rparr>) (0, 0)
   \<and> (\<exists>s'. run 3 (fresh open_costs) = Inr s' \<and> cost (map' s' (0, 0)) = 0 \<and> pid (map' s' (0, 0)) = - 1)"
proof -
  have a: "0 \<le> INF' (corridor\<lparr>global_costmap' := open_costs\<rparr>)"
    and b: "in_grid (corridor\<lparr>global_costmap' := open_costs\<rparr>) (0, 0)"
    by (simp_all add: defs)
  have "\<exists>s'. run 3 (fresh open_costs) = Inr s'"
    by (simp add: defs pdefs)
  then obtain s' where r: "run 3 (fresh open_costs) = Inr s'" by blast
  then have "run 3 (insert_node ((reset (corridor\<lparr>global_costmap' := open_costs\<rparr>))\<lparr>goal' := (0, 0)\<rparr>) (0, 0) 0) = Inr s'"
    by (simp add: fresh_def)
  from goal_stays_root [OF a b this] r a b show ?thesis by blast
qed

subsection \<open>The path of a fresh goal\<close>

lemma coords_truncate: "coords (Node.truncate n) = coords n"
  by (simp add: coords_def Node.truncate_def)

lemma pid_truncate: "pid (Node.truncate n) = pid n"
  by (simp add: Node.truncate_def)

lemma wf_map_coords: "wf_map s \<Longrightarrow> coords (map' s c) = c"
  unfolding wf_map_def by blast

lemma wf_map_at_goal:
  assumes "wf_map s"
  shows "(node_x (map' s c) \<noteq> fst goal \<or> node_y (map' s c) \<noteq> snd goal) = (c \<noteq> goal)"
proof -
  from assms have "coords (map' s c) = c" by (rule wf_map_coords)
  then show ?thesis by (cases c; cases goal) (auto simp: coords_def)
qed

lemma extractPath_loop_Suc:
  assumes "wf_map s"
  shows "extractPath_loop (Suc fuel) s c goal acc =
     (if c \<noteq> goal
      then (if in_grid s (index2Grid s (pid (map' s c)))
            then extractPath_loop fuel s (index2Grid s (pid (map' s c))) goal
                   (acc @ [Node.truncate (map' s c)])
            else Some (Inl OutOfBounds))
      else Some (Inr acc))"
  by (simp only: extractPath_loop.simps Let_def wf_map_at_goal [OF assms])

lemma extractPath_loop_chain:
  assumes "extractPath_loop fuel s c goal acc = Some (Inr r)" and "wf_map s"
  shows "\<exists>vis. r = acc @ vis \<and> chain s c goal vis"
  using assms(1)
proof (induction fuel arbitrary: c acc)
  case 0
  then show ?case by simp
next
  case (Suc fuel)
  show ?case
  proof (cases "c = goal")
    case True
    with Suc.prems have "r = acc"
      by (simp add: extractPath_loop_Suc [OF assms(2)] del: extractPath_loop.simps)
    with True show ?thesis by simp
  next
    case False
    let ?n = "Node.truncate (map' s c)"
    let ?c' = "index2Grid s (pid (map' s c))"
    from Suc.prems False
    have "extractPath_loop fuel s ?c' goal (acc @ [?n]) = Some (Inr r)"
      by (simp add: extractPath_loop_Suc [OF assms(2)] del: extractPath_loop.simps split: if_splits)
    then have "\<exists>vis. r = (acc @ [?n]) @ vis \<and> chain s ?c' goal vis"
      by (rule Suc.IH)
    then obtain vis where "r = (acc @ [?n]) @ vis" and "chain s ?c' goal vis"
      by blast
    with False have "r = acc @ (?n # vis) \<and> chain s c goal (?n # vis)"
      by (simp add: pid_truncate)
    then show ?thesis by blast
  qed
qed

lemma chain_Cons:
  assumes "chain s c goal (n # vis)"
  shows "c \<noteq> goal" and "n = Node.truncate (map' s c)" and "chain s (index2Grid s (pid n)) goal vis"
  using assms by auto

lemma chain_hd: "chain s c goal vis \<Longrightarrow> wf_map s \<Longrightarrow> vis \<noteq> [] \<Longrightarrow> coords (hd vis) = c"
  by (cases vis) (simp_all add: coords_truncate wf_map_coords)

lemma chain_start_goal: "chain s c goal vis \<Longrightarrow> (vis = []) = (c = goal)"
  by (cases vis) auto

lemma chain_last:
  "chain s c goal vis \<Longrightarrow> vis \<noteq> [] \<Longrightarrow> index2Grid s (pid (last vis)) = goal"
proof (induction vis arbitrary: c)
  case Nil
  then show ?case by simp
next
  case (Cons n vis)
  note tl = chain_Cons(3) [OF Cons.prems(1)]
  show ?case
  proof (cases "vis = []")
    case True
    with tl show ?thesis by simp
  next
    case False
    with Cons.IH [OF tl] show ?thesis by simp
  qed
qed

lemma chain_avoids_goal:
  assumes "wf_map s"
  shows "chain s c goal vis \<Longrightarrow> goal \<notin> coords ` set vis"
proof (induction vis arbitrary: c)
  case Nil
  then show ?case by simp
next
  case (Cons n vis)
  note hd = chain_Cons(1,2) [OF Cons.prems] and tl = chain_Cons(3) [OF Cons.prems]
  from hd assms have "coords n \<noteq> goal"
    by (simp add: coords_truncate wf_map_coords)
  with Cons.IH [OF tl] show ?case by auto
qed

lemma chain_links:
  assumes "wf_map s"
  shows "chain s c goal vis \<Longrightarrow> Suc i < length vis
     \<Longrightarrow> index2Grid s (pid (vis ! i)) = coords (vis ! Suc i)"
proof (induction vis arbitrary: c i)
  case Nil
  then show ?case by simp
next
  case (Cons n vis)
  note tl = chain_Cons(3) [OF Cons.prems(1)]
  show ?case
  proof (cases i)
    case 0
    with Cons.prems have ne: "vis \<noteq> []" by auto
    with tl assms have "coords (hd vis) = index2Grid s (pid n)"
      by (simp add: chain_hd)
    with 0 ne show ?thesis by (simp add: hd_conv_nth)
  next
    case (Suc j)
    with Cons.prems have "Suc j < length vis" by simp
    with Cons.IH [OF tl] Suc show ?thesis by simp
  qed
qed

lemma chain_nodes:
  assumes "wf_map s"
  shows "chain s c goal vis \<Longrightarrow> n \<in> set vis \<Longrightarrow> n = Node.truncate (map' s (coords n))"
proof (induction vis arbitrary: c)
  case Nil
  then show ?case by simp
next
  case (Cons m vis)
  note hd = chain_Cons(2) [OF Cons.prems(1)] and tl = chain_Cons(3) [OF Cons.prems(1)]
  from hd assms have "m = Node.truncate (map' s (coords m))"
    by (simp add: coords_truncate wf_map_coords)
  with Cons.IH [OF tl] Cons.prems(2) show ?case by auto
qed

lemma chain_map': "map' t = map' s \<Longrightarrow> nx' t = nx' s \<Longrightarrow> chain t c goal vis = chain s c goal vis"
  by (induction vis arbitrary: c) (simp_all add: index2Grid_def)

lemma plan_fresh:
  assumes run: "plan fuel s0 costs start goal = Some (Inr res)" and fresh: "goal' s0 \<noteq> goal"
  obtains s2 where "plan_loop fuel (insert_node ((reset (s0\<lparr>global_costmap' := take (nat (ns s0)) costs\<rparr>))\<lparr>goal' := goal\<rparr>) goal 0) start = Some (Inr s2)"
    and "finish fuel s2 start goal = Some (Inr res)"
    and "in_grid s0 start" and "in_grid s0 goal"
proof -
  let ?s = "s0\<lparr>global_costmap' := take (nat (ns s0)) costs\<rparr>"
  let ?s1 = "(reset ?s)\<lparr>goal' := goal\<rparr>"
  let ?loop = "plan_loop fuel (insert_node ?s1 goal 0) start"
  have grid: "in_grid ?s1 c = in_grid s0 c" for c
    by (simp add: in_grid_def reset_def initMap_def)
  from run have len: "\<not> int (length costs) < ns s0"
    by (auto simp: plan_def)
  with fresh have unfolded: "plan fuel s0 costs start goal =
      (if in_grid s0 start \<and> in_grid s0 goal
       then (case ?loop of None \<Rightarrow> None | Some (Inl e) \<Rightarrow> Some (Inl e)
             | Some (Inr s2) \<Rightarrow> finish fuel s2 start goal)
       else Some (Inl OutOfBounds))"
    unfolding plan_def Let_def by (simp add: grid)
  from run have inside: "in_grid s0 start \<and> in_grid s0 goal"
    unfolding unfolded by (simp split: if_splits)
  with run have "(case ?loop of None \<Rightarrow> None | Some (Inl e) \<Rightarrow> Some (Inl e)
             | Some (Inr s2) \<Rightarrow> finish fuel s2 start goal) = Some (Inr res)"
    unfolding unfolded by simp
  then obtain s2 where "?loop = Some (Inr s2)" and "finish fuel s2 start goal = Some (Inr res)"
    by (cases ?loop) (auto split: sum.splits)
  with inside show ?thesis by (auto intro: that)
qed

lemma finish_chain:
  assumes "finish fuel s2 start goal = Some (Inr (s, found, p, e))" and "wf_map s2"
  shows "found \<and> s = s2\<lparr>path' := p\<rparr> \<and> e = extractExpand s \<and> (\<exists>vis. p = rev vis \<and> chain s start goal vis)"
proof -
  let ?ex = "extractPath fuel (s2\<lparr>path' := []\<rparr>) start goal"
  from assms(1) obtain s' where ex: "?ex = Some (Inr s')"
    unfolding finish_def by (cases ?ex) (auto split: sum.splits)
  from assms(1) have "s' = s \<and> found \<and> path' s' = p \<and> extractExpand s' = e"
    unfolding finish_def ex by auto
  then have eq: "s' = s" and fnd: "found" and pth: "path' s' = p" and exp: "extractExpand s' = e"
    by blast+
  note res = eq fnd pth [unfolded eq] exp [unfolded eq]
  let ?loop = "extractPath_loop fuel (s2\<lparr>path' := []\<rparr>) start goal []"
  from ex have "?loop \<noteq> None"
    unfolding extractPath_def by (auto split: if_splits option.splits)
  then obtain r where r: "?loop = Some r" by blast
  with ex obtain acc where acc: "r = Inr acc"
    unfolding extractPath_def by (cases r) (auto split: if_splits)
  from ex r acc have s': "s' = s2\<lparr>path' := rev acc\<rparr>"
    unfolding extractPath_def by (auto split: if_splits)
  have p: "p = rev acc"
    using res(3) unfolding res(1) [symmetric] s' by simp
  from assms(2) have "wf_map (s2\<lparr>path' := []\<rparr>)"
    by (simp add: wf_map_def grid2Index_def)
  moreover from r acc have "?loop = Some (Inr acc)" by simp
  ultimately have "\<exists>vis. acc = [] @ vis \<and> chain (s2\<lparr>path' := []\<rparr>) start goal vis"
    by (rule extractPath_loop_chain [rotated])
  then have "chain (s2\<lparr>path' := []\<rparr>) start goal acc"
    by simp
  moreover have "chain s' start goal acc = chain (s2\<lparr>path' := []\<rparr>) start goal acc"
    by (rule chain_map') (simp_all add: s')
  ultimately have ch: "chain s start goal acc"
    using res(1) by simp
  have "s = s2\<lparr>path' := p\<rparr>"
    unfolding res(1) [symmetric] s' p ..
  moreover have "e = extractExpand s"
    using res(4) by simp
  moreover have "\<exists>vis. p = rev vis \<and> chain s start goal vis"
    using p ch by blast
  ultimately show ?thesis using res(2) by blast
qed

text \<open>
  C2, as the code has it: a call of \<^verbatim>\<open>plan\<close> for a fresh goal that returns reports
  \<open>found\<close>, and its path is the walk along the predecessor links from the start, reversed.
  So the start is the last element, the first element is the node whose predecessor is the
  goal, every element is the predecessor of the one behind it, the goal itself is not in the
  path, and the path is empty exactly when the start is the goal.
\<close>

theorem plan_path_runs_to_start:
  assumes run: "plan fuel s0 costs start goal = Some (Inr (s, found, p, e))"
    and fresh: "goal' s0 \<noteq> goal"
  shows "found \<and> p = path' s
       \<and> (p = []) = (start = goal)
       \<and> (start \<noteq> goal \<longrightarrow> coords (last p) = start \<and> index2Grid s (pid (hd p)) = goal)
       \<and> goal \<notin> coords ` set p
       \<and> (\<forall>i. Suc i < length p \<longrightarrow> index2Grid s (pid (p ! Suc i)) = coords (p ! i))
       \<and> (\<forall>n \<in> set p. n = Node.truncate (map' s (coords n)))"
proof -
  let ?s1 = "insert_node ((reset (s0\<lparr>global_costmap' := take (nat (ns s0)) costs\<rparr>))\<lparr>goal' := goal\<rparr>) goal 0"
  from run fresh obtain s2 where loop: "plan_loop fuel ?s1 start = Some (Inr s2)"
    and fin: "finish fuel s2 start goal = Some (Inr (s, found, p, e))"
    by (rule plan_fresh)
  have "wf_map ((reset (s0\<lparr>global_costmap' := take (nat (ns s0)) costs\<rparr>))\<lparr>goal' := goal\<rparr>)"
    using wf_map_reset [of "s0\<lparr>global_costmap' := take (nat (ns s0)) costs\<rparr>"]
    by (simp add: wf_map_def grid2Index_def)
  then have "wf_map ?s1" using static_insert_node by (rule static_wf_map [rotated])
  with loop have wf2: "wf_map s2" by (auto dest: static_plan_loop static_wf_map)
  from fin wf2 obtain vis where found: "found" and s: "s = s2\<lparr>path' := p\<rparr>"
    and p: "p = rev vis" and ch: "chain s start goal vis"
    using finish_chain by blast
  from wf2 s have wf: "wf_map s" by (simp add: wf_map_def grid2Index_def)
  have a: "(p = []) = (start = goal)" using ch p by (simp add: chain_start_goal)
  have b: "start \<noteq> goal \<longrightarrow> coords (last p) = start \<and> index2Grid s (pid (hd p)) = goal"
  proof
    assume "start \<noteq> goal"
    with ch have ne: "vis \<noteq> []" by (simp add: chain_start_goal)
    with ch wf show "coords (last p) = start \<and> index2Grid s (pid (hd p)) = goal"
      by (simp add: p last_rev hd_rev chain_hd chain_last)
  qed
  have c: "goal \<notin> coords ` set p" using chain_avoids_goal [OF wf ch] p by simp
  have d: "\<forall>i. Suc i < length p \<longrightarrow> index2Grid s (pid (p ! Suc i)) = coords (p ! i)"
  proof (intro allI impI)
    fix i
    assume i: "Suc i < length p"
    let ?j = "length vis - Suc (Suc i)"
    from i p have j: "Suc ?j < length vis" by simp
    from i p have "p ! Suc i = vis ! ?j" and "p ! i = vis ! Suc ?j"
      by (simp_all add: rev_nth Suc_diff_Suc)
    with chain_links [OF wf ch j] show "index2Grid s (pid (p ! Suc i)) = coords (p ! i)"
      by simp
  qed
  have e: "\<forall>n \<in> set p. n = Node.truncate (map' s (coords n))"
    using chain_nodes [OF wf ch] p by auto
  from found s a b c d e show ?thesis by simp
qed

text \<open>
  The theorem in the open corridor, from the start \<open>(2,0)\<close> to the goal \<open>(0,0)\<close>.
\<close>

theorem plan_path_runs_to_start_witness:
  "goal' corridor \<noteq> (0, 0)
   \<and> (\<exists>p e. plan 3 corridor open_costs (2, 0) (0, 0) = Some (Inr (planned, True, p, e))
        \<and> p = path' planned \<and> p \<noteq> [] \<and> coords (last p) = (2, 0)
        \<and> index2Grid planned (pid (hd p)) = (0, 0) \<and> (0, 0) \<notin> coords ` set p)"
proof -
  have fresh: "goal' corridor \<noteq> (0, 0)"
    by (simp add: defs)
  from first_call obtain p e
    where run: "plan 3 corridor open_costs (2, 0) (0, 0) = Some (Inr (planned, True, p, e))"
    by blast
  from plan_path_runs_to_start [OF run fresh]
  have "p = path' planned \<and> p \<noteq> [] \<and> coords (last p) = (2, 0)
        \<and> index2Grid planned (pid (hd p)) = (0, 0) \<and> (0, 0) \<notin> coords ` set p"
    by auto
  with run fresh show ?thesis by blast
qed

text \<open>
  C2 as the claim states it (first element the start, last element the goal) fails there:
  the path of this call is \<open>(1,0)\<close>, \<open>(2,0)\<close>. Its first element is not the start
  \<open>(2,0)\<close>, and its last element is not the goal \<open>(0,0)\<close>.
\<close>

theorem plan_path_starts_behind_goal:
  "result_path (plan 3 corridor open_costs (2, 0) (0, 0)) = Some (True, [(1, 0), (2, 0)])"
  by (simp add: defs pdefs)

subsection \<open>Exhausted open list\<close>

lemma plan_loop_exhausted:
  "open_list' s = [] \<Longrightarrow> tag (map' s start) \<noteq> CLOSED \<Longrightarrow> plan_loop fuel s start = None"
  by (induction fuel) (simp_all add: processState_empty)

text \<open>
  C1: in the corridor with the wall the start \<open>(2,0)\<close> cannot be reached from the goal
  \<open>(0,0)\<close>. The first call of \<^verbatim>\<open>processState\<close> empties the open list; every later call
  returns the sentinel and changes nothing, so the start is never closed and the loop of
  \<^verbatim>\<open>plan\<close> does not end: whatever the fuel, \<^verbatim>\<open>plan\<close> does not return. It returns neither
  \<open>found = false\<close> nor anything else.
\<close>

theorem plan_disconnected_never_returns:
  "\<forall>fuel. plan fuel corridor wall_costs (2, 0) (0, 0) = None"
proof
  fix fuel
  have unfolded: "plan fuel corridor wall_costs (2, 0) (0, 0)
      = (case plan_loop fuel (fresh wall_costs) (2, 0) of None \<Rightarrow> None
         | Some (Inl e) \<Rightarrow> Some (Inl e) | Some (Inr s2) \<Rightarrow> finish fuel s2 (2, 0) (0, 0))"
    by (simp add: plan_def fresh_def corridor_def DStar_new_def initMap_def reset_def ns_def
        in_grid_def wall_costs_def)
  have "plan_loop fuel (fresh wall_costs) (2, 0) = None"
  proof (cases fuel)
    case 0
    then show ?thesis by simp
  next
    case (Suc n)
    obtain s' where step: "processState (fresh wall_costs) = Inr (s', PastEnd)"
      and empty: "open_list' s' = []" and tg: "tag (map' s' (2, 0)) = NEW"
      by (simp add: defs)
    from empty tg have "plan_loop n s' (2, 0) = None"
      by (simp add: plan_loop_exhausted)
    with Suc step tg show ?thesis by simp
  qed
  with unfolded show "plan fuel corridor wall_costs (2, 0) (0, 0) = None" by simp
qed

text \<open>
  C4: after the first call in the open corridor the cell \<open>(1,0)\<close> on the path becomes
  lethal. The second call, for the same goal, calls \<^verbatim>\<open>modify\<close> for the start and its
  predecessor. The loop of \<^verbatim>\<open>modify\<close> pops the three entries of the open list; no key reaches
  the raised cost of the start, and the third call of \<^verbatim>\<open>processState\<close> reads the minimum of
  the empty list. The loop has no test for the exhausted list.
\<close>

theorem modify_reads_empty_list:
  "result_path (plan 3 corridor open_costs (2, 0) (0, 0)) = Some (True, [(1, 0), (2, 0)])
   \<and> (\<forall>fuel. plan (Suc (Suc (Suc fuel))) planned wall_costs (2, 0) (0, 0) = Some (Inl EmptyRead))"
  by (simp add: defs pdefs)

subsection \<open>Predecessor links\<close>

lemma index2Grid_grid2Index:
  assumes "in_grid s c"
  shows "index2Grid s (grid2Index s (fst c) (snd c)) = c"
proof -
  from assms have a: "0 \<le> fst c" "fst c < nx' s" and b: "0 \<le> snd c"
    by (simp_all add: in_grid_def)
  let ?k = "fst c + nx' s * snd c"
  from a b have k: "0 \<le> ?k" by simp
  from a have m: "?k mod nx' s = fst c" by simp
  from a have d: "?k div nx' s = snd c" by simp
  have "?k smod nx' s = fst c \<and> ?k sdiv nx' s = snd c"
  proof (cases "?k = 0")
    case True
    with a b have "fst c = 0" and "nx' s * snd c = 0"
      by (simp_all add: add_nonneg_eq_0_iff)
    with a have "snd c = 0" by simp
    with True \<open>fst c = 0\<close> show ?thesis
      by (simp add: signed_modulo_int_def signed_divide_int_def)
  next
    case False
    with k have "0 < ?k" by simp
    with a m d show ?thesis
      by (simp add: signed_modulo_int_def signed_divide_int_def)
  qed
  then show ?thesis
    by (simp add: index2Grid_def grid2Index_def prod_eq_iff)
qed

lemma wf_map_id: "wf_map s \<Longrightarrow> node_id (map' s c) = grid2Index s (fst c) (snd c)"
  unfolding wf_map_def by blast

lemma index2Grid_node_id: "wf_map s \<Longrightarrow> in_grid s c \<Longrightarrow> index2Grid s (node_id (map' s c)) = c"
  by (simp add: wf_map_id index2Grid_grid2Index)

lemma static_node_id: "static s t \<Longrightarrow> node_id (map' t c) = node_id (map' s c)"
  unfolding static_def by blast

lemma static_isCollision:
  assumes "static s t"
  shows "isCollision t (map' t c) (map' t d) = isCollision s (map' s c) (map' s d)"
proof -
  from assms have "global_costmap' t = global_costmap' s" "lethal_cost' t = lethal_cost' s"
    "factor' t = factor' s"
    unfolding static_def by blast+
  then show ?thesis
    by (simp add: isCollision_def lethal_def static_node_id [OF assms])
qed

lemma pred_okD:
  assumes "pred_ok s" and "in_grid s c" and "pid (map' s c) \<noteq> - 1"
  shows "in_grid s (index2Grid s (pid (map' s c)))"
    and "\<not> isCollision s (map' s c) (map' s (index2Grid s (pid (map' s c))))"
  using assms unfolding pred_ok_def by blast+

lemma static_index2Grid: "static s t \<Longrightarrow> index2Grid t i = index2Grid s i"
  by (simp add: static_def index2Grid_def)

lemma isCollision_sym: "isCollision s a b = isCollision s b a"
  by (auto simp: isCollision_def)

lemma pred_ok_update:
  assumes wf: "wf_map s" and ok: "pred_ok s" and st: "static s t"
    and upd: "\<And>c. in_grid s c \<Longrightarrow> pid (map' t c) = pid (map' s c)
        \<or> (\<exists>d. in_grid s d \<and> \<not> isCollision s (map' s c) (map' s d)
               \<and> pid (map' t c) = node_id (map' s d))"
  shows "pred_ok t"
  unfolding pred_ok_def
proof (intro allI impI)
  fix c
  assume c: "in_grid t c \<and> pid (map' t c) \<noteq> - 1"
  with st have cs: "in_grid s c" by (simp add: static_in_grid)
  let ?y = "index2Grid t (pid (map' t c))"
  have "in_grid s ?y \<and> \<not> isCollision s (map' s c) (map' s ?y)"
    using upd [OF cs]
  proof
    assume same: "pid (map' t c) = pid (map' s c)"
    with c have "pid (map' s c) \<noteq> - 1" by simp
    with ok cs have "in_grid s (index2Grid s (pid (map' s c)))
        \<and> \<not> isCollision s (map' s c) (map' s (index2Grid s (pid (map' s c))))"
      by (simp add: pred_okD)
    then show ?thesis
      by (simp add: same static_index2Grid [OF st])
  next
    assume "\<exists>d. in_grid s d \<and> \<not> isCollision s (map' s c) (map' s d)
               \<and> pid (map' t c) = node_id (map' s d)"
    then obtain d where d: "in_grid s d" "\<not> isCollision s (map' s c) (map' s d)"
      "pid (map' t c) = node_id (map' s d)" by blast
    from wf d(1) d(3) have "?y = d"
      using static_index2Grid [OF st] by (simp add: index2Grid_node_id)
    with d show ?thesis by simp
  qed
  then show "in_grid t ?y \<and> \<not> isCollision t (map' t c) (map' t ?y)"
    using st by (simp add: static_in_grid static_isCollision)
qed

lemma pred_ok_insert_node:
  assumes "wf_map s" and "pred_ok s"
  shows "pred_ok (insert_node s c h)"
  using assms static_insert_node
proof (rule pred_ok_update)
  fix d
  show "pid (map' (insert_node s c h) d) = pid (map' s d)
     \<or> (\<exists>e. in_grid s e \<and> \<not> isCollision s (map' s d) (map' s e)
             \<and> pid (map' (insert_node s c h) d) = node_id (map' s e))"
    by (simp add: insert_node_def Let_def)
qed

lemma pred_ok_relax:
  assumes wf: "wf_map s" and ok: "pred_ok s" and x: "in_grid s x"
    and free: "\<not> isCollision s (map' s x) (map' s y)"
  shows "pred_ok (insert_node (s\<lparr>map' := (map' s)(y := (map' s y)\<lparr>pid := node_id (map' s x)\<rparr>)\<rparr>) y h)"
  using wf ok
proof (rule pred_ok_update)
  let ?t = "s\<lparr>map' := (map' s)(y := (map' s y)\<lparr>pid := node_id (map' s x)\<rparr>)\<rparr>"
  have "static s ?t" by (simp add: static_def)
  then show "static s (insert_node ?t y h)"
    using static_insert_node by (rule static_trans)
  fix c
  show "pid (map' (insert_node ?t y h) c) = pid (map' s c)
     \<or> (\<exists>d. in_grid s d \<and> \<not> isCollision s (map' s c) (map' s d)
             \<and> pid (map' (insert_node ?t y h) c) = node_id (map' s d))"
  proof (cases "c = y")
    case True
    from free have "\<not> isCollision s (map' s y) (map' s x)" by (simp add: isCollision_sym)
    moreover from True have "pid (map' (insert_node ?t y h) c) = node_id (map' s x)"
      by (simp add: insert_node_def Let_def)
    ultimately have "in_grid s x \<and> \<not> isCollision s (map' s c) (map' s x)
             \<and> pid (map' (insert_node ?t y h) c) = node_id (map' s x)"
      using x True by simp
    then show ?thesis by blast
  next
    case False
    then show ?thesis by (simp add: insert_node_def Let_def)
  qed
qed

lemma pred_ok_lower_step:
  assumes "wf_map s" and "pred_ok s" and "in_grid s x"
    and "\<not> isCollision s (map' s x) (map' s y)"
  shows "pred_ok (lower_step x y s)"
  using assms by (simp add: lower_step_def Let_def pred_ok_relax)

lemma pred_ok_raise_state_step:
  assumes "wf_map s" and "pred_ok s" and "in_grid s x"
    and "\<not> isCollision s (map' s x) (map' s y)"
  shows "pred_ok (raise_state_step x k y s)"
  using assms by (simp add: raise_state_step_def Let_def pred_ok_relax pred_ok_insert_node)

lemma pred_ok_raise_step:
  assumes wf: "wf_map s" and ok: "pred_ok s" and y: "in_grid s y"
    and free: "\<not> isCollision s (map' s x) (map' s y)"
  shows "pred_ok (raise_step x k y s)"
  using wf ok static_raise_step
proof (rule pred_ok_update)
  fix c
  show "pid (map' (raise_step x k y s) c) = pid (map' s c)
     \<or> (\<exists>d. in_grid s d \<and> \<not> isCollision s (map' s c) (map' s d)
             \<and> pid (map' (raise_step x k y s) c) = node_id (map' s d))"
  proof (cases "pid (map' (raise_step x k y s) c) = pid (map' s c)")
    case True
    then show ?thesis ..
  next
    case False
    then have "c = x" and "pid (map' (raise_step x k y s) c) = node_id (map' s y)"
      by (auto simp: raise_step_def Let_def split: if_splits)
    with y free have "in_grid s y \<and> \<not> isCollision s (map' s c) (map' s y)
             \<and> pid (map' (raise_step x k y s) c) = node_id (map' s y)"
      by simp
    then show ?thesis by blast
  qed
qed

lemma getNeighbours_loop_free:
  "getNeighbours_loop s c offs acc = Inr nbs
     \<Longrightarrow> \<forall>y \<in> set acc. \<not> isCollision s (map' s c) (map' s y)
     \<Longrightarrow> \<forall>y \<in> set nbs. \<not> isCollision s (map' s c) (map' s y)"
proof (induction offs arbitrary: acc)
  case Nil
  then show ?case by simp
next
  case (Cons off offs)
  obtain i j where off: "off = (i, j)" by (cases off)
  from Cons.prems show ?case
    unfolding off by (auto simp: Let_def split: if_splits dest!: Cons.IH)
qed

lemma getNeighbours_free:
  "getNeighbours s c = Inr nbs \<Longrightarrow> y \<in> set nbs \<Longrightarrow> \<not> isCollision s (map' s c) (map' s y)"
  using getNeighbours_loop_free [of s c offsets "[]" nbs] by (simp add: getNeighbours_def)

lemma open_in_grid_insert_node:
  assumes "open_in_grid s" and "in_grid s c"
  shows "open_in_grid (insert_node s c h)"
  using assms by (auto simp: open_in_grid_def insert_node_def Let_def set_multimap_insert in_grid_def)

lemma open_in_grid_map': "open_in_grid (s\<lparr>map' := m\<rparr>) = open_in_grid s"
  by (simp add: open_in_grid_def in_grid_def)

lemma open_in_grid_raise_step: "open_in_grid (raise_step x k y s) = open_in_grid s"
  by (simp add: raise_step_def Let_def open_in_grid_map')

lemma links_inv_insert_node:
  assumes "links_inv s" and "in_grid s c"
  shows "links_inv (insert_node s c h)"
  using assms static_wf_map [OF static_insert_node]
  by (simp add: links_inv_def pred_ok_insert_node open_in_grid_insert_node)

lemma links_inv_relax:
  assumes inv: "links_inv s" and x: "in_grid s x" and y: "in_grid s y"
    and free: "\<not> isCollision s (map' s x) (map' s y)"
  shows "links_inv (insert_node (s\<lparr>map' := (map' s)(y := (map' s y)\<lparr>pid := node_id (map' s x)\<rparr>)\<rparr>) y h)"
proof -
  let ?t = "s\<lparr>map' := (map' s)(y := (map' s y)\<lparr>pid := node_id (map' s x)\<rparr>)\<rparr>"
  have "static s ?t" by (simp add: static_def)
  then have st: "static s (insert_node ?t y h)"
    using static_insert_node by (rule static_trans)
  from inv have "wf_map (insert_node ?t y h)"
    using static_wf_map [OF st] by (simp add: links_inv_def)
  moreover from inv x free have "pred_ok (insert_node ?t y h)"
    by (simp add: links_inv_def pred_ok_relax)
  moreover have "open_in_grid (insert_node ?t y h)"
  proof (rule open_in_grid_insert_node)
    show "open_in_grid ?t" using inv by (simp add: links_inv_def open_in_grid_map')
    show "in_grid ?t y" using y by (simp add: in_grid_def)
  qed
  ultimately show ?thesis by (simp add: links_inv_def)
qed

lemma links_inv_lower_step:
  assumes "links_inv s" and "in_grid s x" and "in_grid s y"
    and "\<not> isCollision s (map' s x) (map' s y)"
  shows "links_inv (lower_step x y s)"
  using assms by (simp add: lower_step_def Let_def links_inv_relax)

lemma links_inv_raise_state_step:
  assumes "links_inv s" and "in_grid s x" and "in_grid s y"
    and "\<not> isCollision s (map' s x) (map' s y)"
  shows "links_inv (raise_state_step x k y s)"
  using assms by (simp add: raise_state_step_def Let_def links_inv_relax links_inv_insert_node)

lemma links_inv_raise_step:
  assumes "links_inv s" and "in_grid s x" and "in_grid s y"
    and "\<not> isCollision s (map' s x) (map' s y)"
  shows "links_inv (raise_step x k y s)"
  using assms static_wf_map [OF static_raise_step]
  by (simp add: links_inv_def pred_ok_raise_step open_in_grid_raise_step)

lemma links_inv_fold:
  assumes step: "\<And>y t. links_inv t \<Longrightarrow> in_grid t x \<Longrightarrow> in_grid t y
        \<Longrightarrow> \<not> isCollision t (map' t x) (map' t y) \<Longrightarrow> links_inv (f y t)"
    and st: "\<And>y t. static t (f y t)"
    and inv: "links_inv s" and x: "in_grid s x"
    and ys: "\<forall>y \<in> set ys. in_grid s y \<and> \<not> isCollision s (map' s x) (map' s y)"
  shows "links_inv (fold f ys s)"
proof -
  have "links_inv (fold f ys s) \<and> static s (fold f ys s)"
  proof (rule fold_invariant [where P = "\<lambda>t. links_inv t \<and> static s t"])
    show "links_inv s \<and> static s s" using inv by (simp add: static_refl)
  next
    fix y t
    assume y: "y \<in> set ys" and t: "links_inv t \<and> static s t"
    then have stat: "static s t" by simp
    from x have xt: "in_grid t x" using static_in_grid [OF stat] by simp
    from ys y have yt: "in_grid t y" using static_in_grid [OF stat] by simp
    from ys y have free: "\<not> isCollision t (map' t x) (map' t y)"
      using static_isCollision [OF stat] by simp
    from t xt yt free have "links_inv (f y t)" by (simp add: step)
    moreover have "static s (f y t)" using stat st by (rule static_trans)
    ultimately show "links_inv (f y t) \<and> static s (f y t)" ..
  qed
  then show ?thesis ..
qed

lemma links_inv_processState:
  assumes inv: "links_inv s" and run: "processState s = Inr (s', r)"
  shows "links_inv s'"
  using run
proof (cases rule: processState_cases)
  case empty
  with inv show ?thesis by simp
next
  case (pop k_old x rest nbs s1 s2)
  from inv pop(1) have x: "in_grid s x" by (auto simp: links_inv_def open_in_grid_def)
  have st1: "static s s1" by (simp add: static_def pop(2))
  have inv1: "links_inv s1"
  proof -
    from inv have "wf_map s1" using static_wf_map [OF st1] by (simp add: links_inv_def)
    moreover have "pred_ok s1"
    proof (rule pred_ok_update [OF _ _ st1])
      show "wf_map s" "pred_ok s" using inv by (simp_all add: links_inv_def)
      fix c
      show "pid (map' s1 c) = pid (map' s c)
         \<or> (\<exists>d. in_grid s d \<and> \<not> isCollision s (map' s c) (map' s d)
                 \<and> pid (map' s1 c) = node_id (map' s d))"
        by (simp add: pop(2))
    qed
    moreover from inv pop(1) have "open_in_grid s1"
      by (auto simp: links_inv_def open_in_grid_def pop(2) in_grid_def)
    ultimately show ?thesis by (simp add: links_inv_def)
  qed
  from x have x1: "in_grid s1 x" using static_in_grid [OF st1] by simp
  from pop(3) have nb1: "\<forall>y \<in> set nbs. in_grid s1 y \<and> \<not> isCollision s1 (map' s1 x) (map' s1 y)"
    by (auto dest: getNeighbours_in_grid getNeighbours_free)
  have st2: "static s1 s2"
    by (simp add: pop(4) static_refl static_fold static_raise_step)
  have inv2: "links_inv s2"
    unfolding pop(4) using inv1 x1 nb1
    by (auto intro!: links_inv_fold links_inv_raise_step static_raise_step)
  from x1 have x2: "in_grid s2 x" using static_in_grid [OF st2] by simp
  from nb1 have nb2: "\<forall>y \<in> set nbs. in_grid s2 y \<and> \<not> isCollision s2 (map' s2 x) (map' s2 y)"
    using static_in_grid [OF st2] static_isCollision [OF st2] by simp
  show ?thesis
    unfolding pop(5) using inv2 x2 nb2
    by (auto intro!: links_inv_fold links_inv_lower_step links_inv_raise_state_step
        static_lower_step static_raise_state_step)
qed

lemma links_inv_plan_loop:
  "links_inv s \<Longrightarrow> plan_loop fuel s start = Some (Inr s') \<Longrightarrow> links_inv s'"
proof (induction fuel arbitrary: s)
  case 0
  then show ?case by simp
next
  case (Suc fuel)
  from Suc.prems(2) obtain s1 k where ps: "processState s = Inr (s1, k)"
    and rest: "(tag (map' s1 start) = CLOSED \<and> s' = s1)
             \<or> (tag (map' s1 start) \<noteq> CLOSED \<and> plan_loop fuel s1 start = Some (Inr s'))"
    by (auto split: sum.splits if_splits)
  from Suc.prems(1) ps have inv1: "links_inv s1" by (rule links_inv_processState)
  from rest show ?case
  proof
    assume "tag (map' s1 start) = CLOSED \<and> s' = s1"
    with inv1 show ?thesis by simp
  next
    assume "tag (map' s1 start) \<noteq> CLOSED \<and> plan_loop fuel s1 start = Some (Inr s')"
    with inv1 show ?thesis by (simp add: Suc.IH)
  qed
qed

lemma links_inv_fresh:
  assumes "in_grid s g"
  shows "links_inv (insert_node ((reset s)\<lparr>goal' := g\<rparr>) g 0)"
proof (rule links_inv_insert_node)
  have "wf_map ((reset s)\<lparr>goal' := g\<rparr>)"
    using wf_map_reset [of s] by (simp add: wf_map_def grid2Index_def)
  moreover have "pred_ok ((reset s)\<lparr>goal' := g\<rparr>)"
    by (simp add: pred_ok_def reset_def initMap_def split: prod.splits)
  moreover have "open_in_grid ((reset s)\<lparr>goal' := g\<rparr>)"
    by (simp add: open_in_grid_def reset_def initMap_def)
  ultimately show "links_inv ((reset s)\<lparr>goal' := g\<rparr>)"
    by (simp add: links_inv_def)
  show "in_grid ((reset s)\<lparr>goal' := g\<rparr>) g"
    using assms by (simp add: in_grid_def reset_def initMap_def)
qed

subsection \<open>The same call again\<close>

lemma dis_nonneg: "0 \<le> dis n c"
  by (simp add: dis_def)

lemma dis_zero:
  assumes "dis n c = 0"
  shows "coords n = c"
proof -
  let ?k = "(node_x n - fst c)\<^sup>2 + (node_y n - snd c)\<^sup>2"
  from assms have "sqrt (real_of_int ?k) < 1"
    unfolding dis_def by linarith
  then have "real_of_int ?k < 1" by simp
  then have "?k < 1" by linarith
  moreover have "0 \<le> ?k" by simp
  ultimately have "?k = 0" by linarith
  then have "node_x n - fst c = 0 \<and> node_y n - snd c = 0"
    by (simp add: sum_power2_eq_zero_iff)
  then show ?thesis by (simp add: coords_def prod_eq_iff)
qed

lemma dis_self: "coords n = c \<Longrightarrow> dis n c = 0"
  by (auto simp: dis_def coords_def)

lemma getState_loop_min:
  assumes "drop i xs = ps" and "m < i" and "d = dis (xs ! m) cur"
  shows "getState_loop ps cur i d m < max (length xs) i
       \<and> dis (xs ! getState_loop ps cur i d m) cur \<le> d
       \<and> (\<forall>j. i \<le> j \<and> j < length xs
             \<longrightarrow> dis (xs ! getState_loop ps cur i d m) cur \<le> dis (xs ! j) cur)"
  using assms
proof (induction ps arbitrary: i d m)
  case Nil
  then show ?case by simp
next
  case (Cons p ps)
  from Cons.prems(1) have i: "i < length xs"
    by (cases "i < length xs") simp_all
  from Cons.prems(1) have p: "p = xs ! i"
    by (simp add: nth_via_drop)
  have "drop (Suc i) xs = tl (drop i xs)"
    by (simp add: drop_Suc tl_drop)
  with Cons.prems(1) have rest: "drop (Suc i) xs = ps" by simp
  show ?case
  proof (cases "dis p cur < d")
    case True
    have "i < Suc i" by simp
    from Cons.IH [OF rest this, of "dis p cur"] p
    have ih: "getState_loop ps cur (Suc i) (dis p cur) i < max (length xs) (Suc i)"
      "dis (xs ! getState_loop ps cur (Suc i) (dis p cur) i) cur \<le> dis p cur"
      "\<forall>j. Suc i \<le> j \<and> j < length xs
          \<longrightarrow> dis (xs ! getState_loop ps cur (Suc i) (dis p cur) i) cur \<le> dis (xs ! j) cur"
      by simp_all
    have "\<forall>j. i \<le> j \<and> j < length xs
          \<longrightarrow> dis (xs ! getState_loop ps cur (Suc i) (dis p cur) i) cur \<le> dis (xs ! j) cur"
    proof (intro allI impI)
      fix j
      assume j: "i \<le> j \<and> j < length xs"
      show "dis (xs ! getState_loop ps cur (Suc i) (dis p cur) i) cur \<le> dis (xs ! j) cur"
      proof (cases "j = i")
        case True
        with ih(2) p show ?thesis by simp
      next
        case False
        with j have "Suc i \<le> j \<and> j < length xs" by simp
        with ih(3) show ?thesis by blast
      qed
    qed
    with True ih(1,2) i show ?thesis by (simp add: max_def split: if_splits)
  next
    case False
    from Cons.prems(2) have "m < Suc i" by simp
    from Cons.IH [OF rest this Cons.prems(3)]
    have ih: "getState_loop ps cur (Suc i) d m < max (length xs) (Suc i)"
      "dis (xs ! getState_loop ps cur (Suc i) d m) cur \<le> d"
      "\<forall>j. Suc i \<le> j \<and> j < length xs
          \<longrightarrow> dis (xs ! getState_loop ps cur (Suc i) d m) cur \<le> dis (xs ! j) cur"
      by simp_all
    have "\<forall>j. i \<le> j \<and> j < length xs
          \<longrightarrow> dis (xs ! getState_loop ps cur (Suc i) d m) cur \<le> dis (xs ! j) cur"
    proof (intro allI impI)
      fix j
      assume j: "i \<le> j \<and> j < length xs"
      show "dis (xs ! getState_loop ps cur (Suc i) d m) cur \<le> dis (xs ! j) cur"
      proof (cases "j = i")
        case True
        with ih(2) p False show ?thesis by simp
      next
        case False
        with j have "Suc i \<le> j \<and> j < length xs" by simp
        with ih(3) show ?thesis by blast
      qed
    qed
    with False ih(1,2) i show ?thesis by (simp add: max_def split: if_splits)
  qed
qed

lemma getState_on_path:
  assumes ne: "path' s \<noteq> []" and last: "coords (last (path' s)) = c"
  shows "getState s c = Inr c"
proof -
  from ne obtain p ps where path: "path' s = p # ps" by (cases "path' s") auto
  let ?r = "getState_loop ps c 1 (dis p c) 0"
  have "drop 1 (path' s) = ps" and "(0::nat) < 1" and "dis p c = dis (path' s ! 0) c"
    by (simp_all add: path)
  from getState_loop_min [OF this]
  have r: "?r < max (length (path' s)) 1" and le0: "dis (path' s ! ?r) c \<le> dis p c"
    and rest: "\<forall>j. 1 \<le> j \<and> j < length (path' s) \<longrightarrow> dis (path' s ! ?r) c \<le> dis (path' s ! j) c"
    by simp_all
  let ?l = "length (path' s) - 1"
  from ne have l: "last (path' s) = path' s ! ?l" by (simp add: last_conv_nth)
  have "dis (path' s ! ?r) c \<le> dis (path' s ! ?l) c"
  proof (cases "?l = 0")
    case True
    with le0 path show ?thesis by simp
  next
    case False
    with ne have "1 \<le> ?l \<and> ?l < length (path' s)" by simp
    with rest show ?thesis by blast
  qed
  moreover have "dis (path' s ! ?l) c = 0"
    using last l by (simp add: dis_self)
  ultimately have "dis (path' s ! ?r) c = 0"
    using dis_nonneg [of "path' s ! ?r" c] by simp
  then have "coords (path' s ! ?r) = c" by (rule dis_zero)
  then show ?thesis
    by (simp add: getState_def path Let_def coords_def prod_eq_iff)
qed

lemma walk_along_links:
  "links_inv s \<Longrightarrow> in_grid s x \<Longrightarrow> walk fuel n s x = Some (Inr s)"
proof (induction n arbitrary: x)
  case 0
  show ?case by simp
next
  case (Suc n)
  show ?case
  proof (cases "pid (map' s x) = - 1")
    case True
    then show ?thesis by simp
  next
    case False
    let ?y = "index2Grid s (pid (map' s x))"
    from Suc.prems have ok: "pred_ok s" by (simp add: links_inv_def)
    from pred_okD [OF ok Suc.prems(2) False]
    have y: "in_grid s ?y" and free: "\<not> isCollision s (map' s x) (map' s ?y)" .
    from Suc.prems(1) y have "walk fuel n s ?y = Some (Inr s)" by (rule Suc.IH)
    with False y free show ?thesis by (simp add: Let_def)
  qed
qed

lemma links_inv_path: "links_inv (s\<lparr>path' := p\<rparr>) = links_inv s"
  by (simp add: links_inv_def wf_map_def pred_ok_def open_in_grid_def in_grid_def
      grid2Index_def index2Grid_def isCollision_def lethal_def)

lemma plan_length: "plan fuel s0 costs start goal = Some (Inr res) \<Longrightarrow> \<not> int (length costs) < ns s0"
  by (auto simp: plan_def)

lemma static_ns: "static s t \<Longrightarrow> ns t = ns s"
  by (simp add: static_def ns_def)

text \<open>
  C9, as the code has it. \<^verbatim>\<open>plan\<close> is a function of the planner and its arguments, so two
  runs with the same history return the same. When a call for a fresh goal has returned and
  the start is not the goal, the same call again (same grid, start and goal) returns the
  same path and the same expansion set and leaves the planner as it was: the start is the
  point of the path nearest to itself, no link of the path is in collision, so nothing is
  repaired and the same path is extracted.
\<close>

theorem replan_same_grid:
  assumes first: "plan fuel s0 costs start goal = Some (Inr (s1, found, p, e))"
    and fresh: "goal' s0 \<noteq> goal"
    and apart: "start \<noteq> goal"
  shows "plan fuel s1 costs start goal = Some (Inr (s1, found, p, e))"
proof -
  let ?c = "s0\<lparr>global_costmap' := take (nat (ns s0)) costs\<rparr>"
  let ?ins = "insert_node ((reset ?c)\<lparr>goal' := goal\<rparr>) goal 0"
  from first fresh obtain s2 where loop: "plan_loop fuel ?ins start = Some (Inr s2)"
    and fin: "finish fuel s2 start goal = Some (Inr (s1, found, p, e))"
    and start: "in_grid s0 start" and goal: "in_grid s0 goal"
    by (rule plan_fresh)
  from first have len: "\<not> int (length costs) < ns s0" by (rule plan_length)
  from goal have "in_grid ?c goal" by (simp add: in_grid_def)
  then have "links_inv ?ins" by (rule links_inv_fresh)
  then have inv2: "links_inv s2" using loop by (rule links_inv_plan_loop)
  have "static ((reset ?c)\<lparr>goal' := goal\<rparr>) ?ins" by (rule static_insert_node)
  moreover from loop have "static ?ins s2" by (rule static_plan_loop)
  ultimately have st: "static ((reset ?c)\<lparr>goal' := goal\<rparr>) s2" by (rule static_trans)
  then have fields: "goal' s2 = goal" "global_costmap' s2 = take (nat (ns s0)) costs"
    "nx' s2 = nx' s0" "ny' s2 = ny' s0"
    by (simp_all add: static_def reset_def initMap_def)
  from inv2 have wf2: "wf_map s2" by (simp add: links_inv_def)
  from fin wf2 obtain vis where found: "found" and s1: "s1 = s2\<lparr>path' := p\<rparr>"
    and p: "p = rev vis" and ch: "chain s1 start goal vis"
    using finish_chain by blast
  from wf2 s1 have wf1: "wf_map s1" by (simp add: wf_map_def grid2Index_def)
  from ch apart have ne: "vis \<noteq> []" by (simp add: chain_start_goal)
  with ch wf1 have "coords (hd vis) = start" by (simp add: chain_hd)
  with ne p s1 have path: "path' s1 \<noteq> []" "coords (last (path' s1)) = start"
    by (simp_all add: last_rev)
  then have state: "getState s1 start = Inr start" by (rule getState_on_path)
  have st12: "static s2 (s1\<lparr>path' := path' s2\<rparr>)"
    by (simp add: s1 static_def)
  from inv2 have inv1: "links_inv s1"
    by (simp add: s1 links_inv_path)
  from start fields have start1: "in_grid s1 start" by (simp add: s1 in_grid_def)
  from inv1 start1 have walk: "walk fuel (SIM_DISTANCE s1) s1 start = Some (Inr s1)"
    by (rule walk_along_links)
  have same_costs: "s1\<lparr>global_costmap' := take (nat (ns s1)) costs\<rparr> = s1"
    using fields by (simp add: s1 ns_def)
  have fin1: "finish fuel s1 start goal = Some (Inr (s1, found, p, e))"
    using fin by (simp add: finish_def s1)
  from len fields have len1: "\<not> int (length costs) < ns s1" by (simp add: s1 ns_def)
  from fields have goal1: "goal' s1 = goal" by (simp add: s1)
  show ?thesis
    unfolding plan_def Let_def same_costs
    using len1 goal1 state start1 walk fin1 by simp
qed

text \<open>The theorem in the open corridor, from the start \<open>(2,0)\<close> to the goal \<open>(0,0)\<close>.\<close>

theorem replan_same_grid_witness:
  "goal' corridor \<noteq> (0, 0) \<and> (2, 0) \<noteq> (0 :: int, 0 :: int)
   \<and> (\<exists>p e. plan 3 corridor open_costs (2, 0) (0, 0) = Some (Inr (planned, True, p, e))
          \<and> plan 3 planned open_costs (2, 0) (0, 0) = Some (Inr (planned, True, p, e)))"
proof -
  have fresh: "goal' corridor \<noteq> (0, 0)"
    by (simp add: defs)
  have apart: "(2, 0) \<noteq> (0 :: int, 0 :: int)"
    by simp
  from first_call obtain p e
    where run: "plan 3 corridor open_costs (2, 0) (0, 0) = Some (Inr (planned, True, p, e))"
    by blast
  from replan_same_grid [OF run fresh apart] run fresh apart show ?thesis by blast
qed

lemma plan_four: "plan 4 = plan (Suc (Suc (Suc (Suc 0))))"
  by (simp add: numeral_eq_Suc)

lemma sqrt2_gt1: "1 < sqrt 2" by simp

lemmas sdefs = square4_def costs_a_def costs_b_def plan_four after_a_def after_b_def at_goal_def
  result_state_def

text \<open>
  C9 as the claim states it fails for a call that is not the first one for its goal, and
  for a start that is the goal. On the grid of four by four cells the second call (start
  \<open>(1,0)\<close>, goal \<open>(2,2)\<close>, grid \<open>costs_b\<close>) returns the path \<open>(1,1)\<close>, \<open>(0,1)\<close>; the same
  call again returns the path \<open>(1,1)\<close>, since the nearest point of the new path is another
  one. In the corridor the call with start and goal \<open>(0,0)\<close> returns the empty path, and
  the same call again reads the first element of the empty path.
\<close>

theorem replan_changes_path:
  "result_state (plan 4 square4 costs_a (0, 1) (2, 2)) = Some after_a
   \<and> result_state (plan 4 after_a costs_b (1, 0) (2, 2)) = Some after_b
   \<and> result_path (plan 4 after_a costs_b (1, 0) (2, 2)) = Some (True, [(1, 1), (0, 1)])
   \<and> result_path (plan 4 after_b costs_b (1, 0) (2, 2)) = Some (True, [(1, 1)])
   \<and> result_state (plan 1 corridor open_costs (0, 0) (0, 0)) = Some at_goal
   \<and> result_path (plan 1 corridor open_costs (0, 0) (0, 0)) = Some (True, [])
   \<and> plan 1 at_goal open_costs (0, 0) (0, 0) = Some (Inl OutOfBounds)"
  using sqrt2_gt1 sqrt2_less_2
  by (simp add: defs pdefs sdefs)

subsection \<open>The invariant of the first search\<close>

text \<open>The parts of the invariant, one by one.\<close>

lemma dij_wf: "dij_ex X s \<Longrightarrow> wf_map s"
  and dij_open_in_grid: "dij_ex X s \<Longrightarrow> open_in_grid s"
  and dij_sorted: "dij_ex X s \<Longrightarrow> sorted (map fst (open_list' s))"
  unfolding dij_ex_def by blast+

lemma dij_entry:
  assumes "dij_ex X s" and "e \<in> set (open_list' s)"
  shows "cost (map' s (snd e)) \<le> fst e" and "tag (map' s (snd e)) \<noteq> NEW"
  using assms unfolding dij_ex_def by blast+

lemma dij_open:
  assumes "dij_ex X s" and "tag (map' s c) = OPEN"
  shows "key (map' s c) = cost (map' s c)" and "(cost (map' s c), c) \<in> set (open_list' s)"
  using assms unfolding dij_ex_def by blast+

lemma dij_closed:
  assumes "dij_ex X s" and "tag (map' s c) = CLOSED" and "e \<in> set (open_list' s)"
  shows "cost (map' s c) \<le> fst e"
  using assms unfolding dij_ex_def by blast

lemma dij_settled:
  assumes "dij_ex X s" and "in_grid s c" and "tag (map' s c) = CLOSED" and "c \<notin> X"
  shows "settled s c"
  using assms unfolding dij_ex_def by blast

lemma dij_parent:
  assumes "dij_ex X s" and "pid (map' s y) \<noteq> - 1"
  shows "tag (map' s (par s y)) = CLOSED"
    and "cost (map' s y) = cost (map' s (par s y)) + ecost s (par s y) y"
  using assms unfolding dij_ex_def by blast+

lemma settledD:
  assumes "settled s c" and "getNeighbours s c = Inr nbs" and "y \<in> set nbs"
  shows "tag (map' s y) \<noteq> NEW" and "cost (map' s y) \<le> cost (map' s c) + ecost s c y"
  using assms unfolding settled_def by blast+

lemma par_child:
  assumes "wf_map s" and "in_grid s x" and "pid (map' s y) = node_id (map' s x)"
  shows "par s y = x" and "pid (map' s y) \<noteq> - 1"
proof -
  from assms show "par s y = x" by (simp add: par_def index2Grid_node_id)
  from assms(1,2) have "0 \<le> node_id (map' s x)" by (rule in_grid_id)
  with assms(3) show "pid (map' s y) \<noteq> - 1" by simp
qed

lemma dij_child:
  assumes "dij_ex X s" and "in_grid s x" and "pid (map' s y) = node_id (map' s x)"
  shows "tag (map' s x) = CLOSED" and "cost (map' s y) = cost (map' s x) + ecost s x y"
proof -
  from assms(1) have wf: "wf_map s" by (rule dij_wf)
  note p = par_child(1) [OF wf assms(2,3)] and n = par_child(2) [OF wf assms(2,3)]
  from dij_parent [OF assms(1) n] p
  show "tag (map' s x) = CLOSED" and "cost (map' s y) = cost (map' s x) + ecost s x y"
    by simp_all
qed

text \<open>Neighbours and edge costs depend on the frame only.\<close>

lemma static_node_xy:
  assumes "static s t"
  shows "node_x (map' t c) = node_x (map' s c)" and "node_y (map' t c) = node_y (map' s c)"
  using assms unfolding static_def by blast+

lemma static_skipped: "static s t \<Longrightarrow> skipped t c = skipped s c"
  by (simp add: static_def skipped_def)

lemma static_getNeighbours_loop:
  assumes "static s t"
  shows "getNeighbours_loop t c offs acc = getNeighbours_loop s c offs acc"
proof (induction offs arbitrary: acc)
  case Nil
  show ?case by simp
next
  case (Cons off offs)
  obtain i j where off: "off = (i, j)" by (cases off)
  show ?case
    unfolding off
    by (simp add: Let_def Cons.IH static_node_xy [OF assms] static_skipped [OF assms]
        static_in_grid [OF assms] static_isCollision [OF assms])
qed

lemma static_getNeighbours: "static s t \<Longrightarrow> getNeighbours t c = getNeighbours s c"
  by (simp add: getNeighbours_def static_getNeighbours_loop)

lemma static_ecost:
  assumes "static s t"
  shows "ecost t x y = ecost s x y"
proof -
  from assms have "INF' t = INF' s" unfolding static_def by blast
  then show ?thesis
    by (simp add: ecost_def getCost_def static_isCollision [OF assms] static_node_xy [OF assms])
qed

lemma ecost_nonneg: "\<not> isCollision s (map' s x) (map' s y) \<Longrightarrow> 0 \<le> ecost s x y"
  by (simp add: ecost_def getCost_def)

lemma getNeighbours_loop_not_self:
  assumes "wf_map s"
  shows "getNeighbours_loop s c offs acc = Inr nbs \<Longrightarrow> (0, 0) \<notin> set offs \<Longrightarrow> c \<notin> set acc
     \<Longrightarrow> c \<notin> set nbs"
proof (induction offs arbitrary: acc)
  case Nil
  then show ?case by simp
next
  case (Cons off offs)
  obtain i j where off: "off = (i, j)" by (cases off)
  from assms have "coords (map' s c) = c" by (rule wf_map_coords)
  then have c: "c = (node_x (map' s c), node_y (map' s c))" by (simp add: coords_def)
  from Cons.prems(2) off have "i \<noteq> 0 \<or> j \<noteq> 0" by auto
  with c have ne: "(node_x (map' s c) + i, node_y (map' s c) + j) \<noteq> c"
    by (metis add_cancel_left_right prod.inject)
  from Cons.prems ne show ?case
    unfolding off by (auto simp: Let_def split: if_splits dest!: Cons.IH)
qed

lemma getNeighbours_not_self:
  "wf_map s \<Longrightarrow> getNeighbours s c = Inr nbs \<Longrightarrow> c \<notin> set nbs"
  using getNeighbours_loop_not_self [of s c offsets "[]" nbs]
  by (simp add: getNeighbours_def offsets_def)

text \<open>Introduction rules, and the re-parenting of a neighbour under the loop invariant.\<close>

lemma dij_exI:
  assumes "wf_map s" and "open_in_grid s" and "sorted (map fst (open_list' s))"
    and "\<And>e. e \<in> set (open_list' s) \<Longrightarrow>
           cost (map' s (snd e)) \<le> fst e \<and> tag (map' s (snd e)) \<noteq> NEW"
    and "\<And>c. tag (map' s c) = OPEN \<Longrightarrow>
           key (map' s c) = cost (map' s c) \<and> (cost (map' s c), c) \<in> set (open_list' s)"
    and "\<And>c e. tag (map' s c) = CLOSED \<Longrightarrow> e \<in> set (open_list' s) \<Longrightarrow> cost (map' s c) \<le> fst e"
    and "\<And>c. in_grid s c \<Longrightarrow> tag (map' s c) = CLOSED \<Longrightarrow> c \<notin> X \<Longrightarrow> settled s c"
    and "\<And>y. pid (map' s y) \<noteq> - 1 \<Longrightarrow>
           tag (map' s (par s y)) = CLOSED
           \<and> cost (map' s y) = cost (map' s (par s y)) + ecost s (par s y) y"
  shows "dij_ex X s"
  unfolding dij_ex_def using assms by blast

lemma loopA_static: "loopA x k s1 seen t \<Longrightarrow> static s1 t"
  and loopA_dij: "loopA x k s1 seen t \<Longrightarrow> dij_ex {x} t"
  and loopA_lo: "loopA x k s1 seen t \<Longrightarrow> lo t k"
  and loopA_x: "loopA x k s1 seen t \<Longrightarrow> tag (map' t x) = CLOSED \<and> cost (map' t x) = k"
  unfolding loopA_def by blast+

lemma loopA_closed: "loopA x k s1 seen t \<Longrightarrow> tag (map' t c) = CLOSED \<Longrightarrow> cost (map' t c) \<le> k"
  unfolding loopA_def by blast

lemma loopA_seen:
  assumes "loopA x k s1 seen t" and "y \<in> set seen"
  shows "tag (map' t y) \<noteq> NEW" and "cost (map' t y) \<le> k + ecost t x y"
  using assms unfolding loopA_def by blast+

lemma loopAI:
  assumes "static s1 t" and "dij_ex {x} t" and "lo t k"
    and "tag (map' t x) = CLOSED" and "cost (map' t x) = k"
    and "\<And>c. tag (map' t c) = CLOSED \<Longrightarrow> cost (map' t c) \<le> k"
    and "\<And>y. y \<in> set seen \<Longrightarrow> tag (map' t y) \<noteq> NEW \<and> cost (map' t y) \<le> k + ecost t x y"
  shows "loopA x k s1 seen t"
  unfolding loopA_def using assms by blast

lemma loD: "lo s b \<Longrightarrow> e \<in> set (open_list' s) \<Longrightarrow> b \<le> fst e"
  unfolding lo_def by blast

lemma relax_other: "c \<noteq> y \<Longrightarrow> map' (relax x y h t) c = map' t c"
  by (simp add: relax_def insert_node_def Let_def)

lemma relax_node:
  "cost (map' (relax x y h t) y) = h" "tag (map' (relax x y h t) y) = OPEN"
  "pid (map' (relax x y h t) y) = node_id (map' t x)"
  "key (map' (relax x y h t) y) =
     (case tag (map' t y) of NEW \<Rightarrow> h | OPEN \<Rightarrow> min (key (map' t y)) h
      | CLOSED \<Rightarrow> min (cost (map' t y)) h)"
  by (simp_all add: relax_def insert_node_def Let_def split: Tag.splits)

lemma relax_open:
  "open_list' (relax x y h t) =
     multimap_insert (key (map' (relax x y h t) y), y) (open_list' t)"
  by (simp add: relax_def insert_node_def Let_def)

lemma static_relax: "static t (relax x y h t)"
proof -
  have "static t (t\<lparr>map' := (map' t)(y := (map' t y)\<lparr>pid := node_id (map' t x)\<rparr>)\<rparr>)"
    by (simp add: static_def)
  then show ?thesis
    unfolding relax_def using static_insert_node by (rule static_trans)
qed

lemma par_static: "static s t \<Longrightarrow> pid (map' t c) = pid (map' s c) \<Longrightarrow> par t c = par s c"
  by (simp add: par_def static_index2Grid)

lemma loopA_relax:
  assumes inv: "loopA x k s1 seen t"
    and x: "in_grid t x" and y: "in_grid t y" and ne: "y \<noteq> x"
    and free: "\<not> isCollision t (map' t x) (map' t y)"
    and h: "h = k + ecost t x y"
    and cond: "tag (map' t y) = NEW \<or> cost (map' t y) > h"
  shows "loopA x k s1 (seen @ [y]) (relax x y h t)"
proof -
  let ?t = "relax x y h t"
  note dij = loopA_dij [OF inv]
  note wf = dij_wf [OF dij]
  note st = static_relax [of t x y h]
  from free h have hk: "k \<le> h" using ecost_nonneg [of t x y] by simp
  have nclosed: "tag (map' t y) \<noteq> CLOSED"
  proof
    assume c: "tag (map' t y) = CLOSED"
    with inv have "cost (map' t y) \<le> k" by (rule loopA_closed)
    with cond c hk show False by simp
  qed
  have below: "h < cost (map' t y)" if "tag (map' t y) \<noteq> NEW"
    using that cond by simp
  have ky: "key (map' ?t y) = h"
  proof (cases "tag (map' t y)")
    case NEW
    then show ?thesis by (simp add: relax_node(4))
  next
    case OPEN
    with dij have "key (map' t y) = cost (map' t y)" by (simp add: dij_open)
    with OPEN below show ?thesis by (simp add: relax_node(4))
  next
    case CLOSED
    with nclosed show ?thesis by simp
  qed
  have op: "open_list' ?t = multimap_insert (h, y) (open_list' t)"
    using relax_open [of x y h t] by (simp add: ky)
  have mem: "e \<in> set (open_list' ?t) \<longleftrightarrow> e = (h, y) \<or> e \<in> set (open_list' t)" for e
    by (simp add: op set_multimap_insert)
  have tagc: "tag (map' ?t c) = CLOSED \<longleftrightarrow> tag (map' t c) = CLOSED" for c
    using nclosed by (cases "c = y") (simp_all add: relax_node relax_other)
  have same: "map' ?t c = map' t c" if "tag (map' t c) = CLOSED" for c
    using that nclosed by (cases "c = y") (simp_all add: relax_other)
  have xs: "map' ?t x = map' t x"
    using ne by (simp add: relax_other)
  have d: "dij_ex {x} ?t"
  proof (rule dij_exI)
    show "wf_map ?t" using st wf by (rule static_wf_map)
    show "open_in_grid ?t"
      using dij_open_in_grid [OF dij] y static_in_grid [OF st]
      by (auto simp: open_in_grid_def mem)
    show "sorted (map fst (open_list' ?t))"
      using dij_sorted [OF dij] by (simp add: op sorted_multimap_insert)
  next
    fix e
    assume e: "e \<in> set (open_list' ?t)"
    show "cost (map' ?t (snd e)) \<le> fst e \<and> tag (map' ?t (snd e)) \<noteq> NEW"
    proof (cases "snd e = y")
      case True
      from e have "e = (h, y) \<or> e \<in> set (open_list' t)" by (simp add: mem)
      then have "h \<le> fst e"
      proof
        assume "e = (h, y)"
        then show ?thesis by simp
      next
        assume old: "e \<in> set (open_list' t)"
        from dij_entry [OF dij old] True
        have "cost (map' t y) \<le> fst e" and "tag (map' t y) \<noteq> NEW" by simp_all
        with below show ?thesis by simp
      qed
      with True show ?thesis by (simp add: relax_node)
    next
      case False
      with e have old: "e \<in> set (open_list' t)" by (auto simp: mem)
      from dij_entry [OF dij old] False show ?thesis by (simp add: relax_other)
    qed
  next
    fix c
    assume c: "tag (map' ?t c) = OPEN"
    show "key (map' ?t c) = cost (map' ?t c) \<and> (cost (map' ?t c), c) \<in> set (open_list' ?t)"
    proof (cases "c = y")
      case True
      then show ?thesis by (simp add: ky relax_node(1) mem)
    next
      case False
      with c have "tag (map' t c) = OPEN" by (simp add: relax_other)
      from dij_open [OF dij this] False show ?thesis by (simp add: relax_other mem)
    qed
  next
    fix c e
    assume c: "tag (map' ?t c) = CLOSED" and e: "e \<in> set (open_list' ?t)"
    from c have ct: "tag (map' t c) = CLOSED" by (simp add: tagc)
    from e have "e = (h, y) \<or> e \<in> set (open_list' t)" by (simp add: mem)
    then have "cost (map' t c) \<le> fst e"
    proof
      assume "e = (h, y)"
      with loopA_closed [OF inv ct] hk show ?thesis by simp
    next
      assume "e \<in> set (open_list' t)"
      with dij ct show ?thesis by (rule dij_closed)
    qed
    with ct show "cost (map' ?t c) \<le> fst e" by (simp add: same)
  next
    fix c
    assume g: "in_grid ?t c" and c: "tag (map' ?t c) = CLOSED" and nx: "c \<notin> {x}"
    from c have ct: "tag (map' t c) = CLOSED" by (simp add: tagc)
    from g have "in_grid t c" using static_in_grid [OF st] by simp
    with dij have old: "settled t c" using ct nx by (rule dij_settled)
    show "settled ?t c"
      unfolding settled_def
    proof (intro allI impI)
      fix nbs z
      assume "getNeighbours ?t c = Inr nbs \<and> z \<in> set nbs"
      then have nb: "getNeighbours t c = Inr nbs" and z: "z \<in> set nbs"
        by (simp_all add: static_getNeighbours [OF st])
      note o = settledD [OF old nb z]
      show "tag (map' ?t z) \<noteq> NEW \<and> cost (map' ?t z) \<le> cost (map' ?t c) + ecost ?t c z"
      proof (cases "z = y")
        case True
        with o below have "h \<le> cost (map' t c) + ecost t c y" by simp
        with True ct show ?thesis
          by (simp add: relax_node same static_ecost [OF st])
      next
        case False
        with o ct show ?thesis
          by (simp add: relax_other same static_ecost [OF st])
      qed
    qed
  next
    fix z
    assume z: "pid (map' ?t z) \<noteq> - 1"
    show "tag (map' ?t (par ?t z)) = CLOSED
          \<and> cost (map' ?t z) = cost (map' ?t (par ?t z)) + ecost ?t (par ?t z) z"
    proof (cases "z = y")
      case True
      have "par ?t y = index2Grid t (node_id (map' t x))"
        by (simp add: par_def relax_node static_index2Grid [OF st])
      also have "\<dots> = x" using wf x by (rule index2Grid_node_id)
      finally have p: "par ?t y = x" .
      from loopA_x [OF inv] have tx: "tag (map' ?t x) = CLOSED" and cx: "cost (map' ?t x) = k"
        by (simp_all add: xs)
      have ey: "ecost ?t x y = ecost t x y" by (rule static_ecost [OF st])
      have cy: "cost (map' ?t y) = h" by (rule relax_node(1))
      show ?thesis
        unfolding True p using tx cx ey cy h by simp
    next
      case False
      then have pz: "pid (map' ?t z) = pid (map' t z)" by (simp add: relax_other)
      with z have zt: "pid (map' t z) \<noteq> - 1" by simp
      from st pz have p: "par ?t z = par t z" by (rule par_static)
      note o = dij_parent [OF dij zt]
      from o(1) have "map' ?t (par t z) = map' t (par t z)" by (rule same)
      with o False show ?thesis
        by (simp add: p relax_other static_ecost [OF st])
    qed
  qed
  show ?thesis
  proof (rule loopAI)
    show "static s1 ?t" using loopA_static [OF inv] st by (rule static_trans)
    show "dij_ex {x} ?t" by (rule d)
    show "lo ?t k"
      unfolding lo_def using loD [OF loopA_lo [OF inv]] hk by (auto simp: mem)
    show "tag (map' ?t x) = CLOSED" "cost (map' ?t x) = k"
      using loopA_x [OF inv] by (simp_all add: xs)
  next
    fix c
    assume "tag (map' ?t c) = CLOSED"
    then have ct: "tag (map' t c) = CLOSED" by (simp add: tagc)
    with loopA_closed [OF inv ct] show "cost (map' ?t c) \<le> k" by (simp add: same)
  next
    fix z
    assume "z \<in> set (seen @ [y])"
    then have z: "z = y \<or> (z \<noteq> y \<and> z \<in> set seen)" by auto
    then show "tag (map' ?t z) \<noteq> NEW \<and> cost (map' ?t z) \<le> k + ecost ?t x z"
    proof
      assume zy: "z = y"
      have "ecost ?t x y = ecost t x y" by (rule static_ecost [OF st])
      moreover have "cost (map' ?t y) = h" "tag (map' ?t y) = OPEN" by (rule relax_node)+
      ultimately show ?thesis unfolding zy using h by simp
    next
      assume zz: "z \<noteq> y \<and> z \<in> set seen"
      with loopA_seen [OF inv, of z] show ?thesis
        by (simp add: relax_other static_ecost [OF st])
    qed
  qed
qed

text \<open>The LOWER loop keeps its invariant; on a settled cell both second loops change nothing.\<close>

lemma loopA_skip:
  assumes "loopA x k s1 seen t" and "tag (map' t y) \<noteq> NEW" and "cost (map' t y) \<le> k + ecost t x y"
  shows "loopA x k s1 (seen @ [y]) t"
proof (rule loopAI)
  fix z
  assume "z \<in> set (seen @ [y])"
  then have "z = y \<or> z \<in> set seen" by auto
  with assms loopA_seen [OF assms(1), of z]
  show "tag (map' t z) \<noteq> NEW \<and> cost (map' t z) \<le> k + ecost t x z" by auto
qed (use assms(1) in \<open>auto dest: loopA_static loopA_dij loopA_lo loopA_x loopA_closed\<close>)

lemma lower_step_relax:
  "lower_step x y t =
     (if tag (map' t y) = NEW
         \<or> (pid (map' t y) = node_id (map' t x) \<and> cost (map' t y) \<noteq> cost (map' t x) + ecost t x y)
         \<or> (pid (map' t y) \<noteq> node_id (map' t x) \<and> cost (map' t y) > cost (map' t x) + ecost t x y)
      then relax x y (cost (map' t x) + ecost t x y) t else t)"
  by (simp add: lower_step_def relax_def ecost_def Let_def)

lemma loopA_lower_step:
  assumes inv: "loopA x k s1 seen t"
    and x: "in_grid t x" and y: "in_grid t y" and ne: "y \<noteq> x"
    and free: "\<not> isCollision t (map' t x) (map' t y)"
  shows "loopA x k s1 (seen @ [y]) (lower_step x y t)"
proof -
  let ?h = "cost (map' t x) + ecost t x y"
  from loopA_x [OF inv] have h: "?h = k + ecost t x y" by simp
  have child: "cost (map' t y) = ?h" if "pid (map' t y) = node_id (map' t x)"
    using dij_child(2) [OF loopA_dij [OF inv] x that] .
  show ?thesis
  proof (cases "tag (map' t y) = NEW \<or> cost (map' t y) > ?h")
    case True
    with child have "lower_step x y t = relax x y ?h t"
      by (auto simp: lower_step_relax)
    moreover from inv x y ne free h True have "loopA x k s1 (seen @ [y]) (relax x y ?h t)"
      by (rule loopA_relax)
    ultimately show ?thesis by simp
  next
    case False
    with child have "lower_step x y t = t"
      by (auto simp: lower_step_relax)
    moreover from False h have "tag (map' t y) \<noteq> NEW" "cost (map' t y) \<le> k + ecost t x y"
      by simp_all
    with inv have "loopA x k s1 (seen @ [y]) t" by (rule loopA_skip)
    ultimately show ?thesis by simp
  qed
qed

lemma fold_prefix_invariant:
  assumes "P pre s" and "\<And>pre y t. y \<in> set ys \<Longrightarrow> P pre t \<Longrightarrow> P (pre @ [y]) (f y t)"
  shows "P (pre @ ys) (fold f ys s)"
  using assms
proof (induction ys arbitrary: pre s)
  case Nil
  then show ?case by simp
next
  case (Cons y ys)
  have "P (pre @ [y]) (f y s)" by (rule Cons.prems(2)) (simp_all add: Cons.prems(1))
  then have "P ((pre @ [y]) @ ys) (fold f ys (f y s))"
    by (rule Cons.IH) (simp add: Cons.prems(2))
  then show ?case by simp
qed

lemma loopA_fold:
  assumes inv: "loopA x k s1 [] s1" and x: "in_grid s1 x" and self: "x \<notin> set nbs"
    and nbs: "\<forall>y \<in> set nbs. in_grid s1 y \<and> \<not> isCollision s1 (map' s1 x) (map' s1 y)"
  shows "loopA x k s1 nbs (fold (lower_step x) nbs s1)"
proof -
  have "loopA x k s1 ([] @ nbs) (fold (lower_step x) nbs s1)"
  proof (rule fold_prefix_invariant [where P = "loopA x k s1"])
    show "loopA x k s1 [] s1" by (rule inv)
  next
    fix pre y t
    assume y: "y \<in> set nbs" and t: "loopA x k s1 pre t"
    note st = loopA_static [OF t]
    from x have xt: "in_grid t x" using static_in_grid [OF st] by simp
    from nbs y have yt: "in_grid t y" using static_in_grid [OF st] by simp
    from nbs y have free: "\<not> isCollision t (map' t x) (map' t y)"
      using static_isCollision [OF st] by simp
    from self y have "y \<noteq> x" by auto
    with t xt yt show "loopA x k s1 (pre @ [y]) (lower_step x y t)"
      using free by (rule loopA_lower_step)
  qed
  then show ?thesis by simp
qed

lemma fold_id: "\<forall>y \<in> set ys. f y s = s \<Longrightarrow> fold f ys s = s"
  by (induction ys) simp_all

lemma settled_lower_step_id:
  assumes dij: "dij_ex X s" and x: "in_grid s x" and set: "settled s x"
    and nb: "getNeighbours s x = Inr nbs" and y: "y \<in> set nbs"
  shows "lower_step x y s = s"
proof -
  note o = settledD [OF set nb y]
  have "cost (map' s y) = cost (map' s x) + ecost s x y" if "pid (map' s y) = node_id (map' s x)"
    using dij_child(2) [OF dij x that] .
  with o show ?thesis by (auto simp: lower_step_relax)
qed

lemma settled_raise_state_step_id:
  assumes dij: "dij_ex X s" and x: "in_grid s x" and set: "settled s x"
    and nb: "getNeighbours s x = Inr nbs" and y: "y \<in> set nbs"
    and k: "cost (map' s x) \<le> k"
  shows "raise_state_step x k y s = s"
proof -
  note o = settledD [OF set nb y]
  have child: "cost (map' s y) = cost (map' s x) + ecost s x y"
    if "pid (map' s y) = node_id (map' s x)"
    using dij_child(2) [OF dij x that] .
  from nb y have "\<not> isCollision s (map' s x) (map' s y)" by (rule getNeighbours_free)
  then have "0 \<le> ecost s x y" by (rule ecost_nonneg)
  then have "\<not> (cost (map' s x) > cost (map' s y) + ecost s x y \<and> cost (map' s y) > k)"
    using k by simp
  with o child show ?thesis
    by (auto simp: raise_state_step_def Let_def ecost_def)
qed

text \<open>One call of \<^verbatim>\<open>processState\<close> keeps the invariant, and the popped key bounds the new list.\<close>

lemma settled_static:
  assumes st: "static s t" and old: "settled s c"
    and same: "\<And>z. cost (map' t z) = cost (map' s z)"
    and tags: "\<And>z. tag (map' s z) \<noteq> NEW \<Longrightarrow> tag (map' t z) \<noteq> NEW"
  shows "settled t c"
  unfolding settled_def
proof (intro allI impI)
  fix nbs z
  assume "getNeighbours t c = Inr nbs \<and> z \<in> set nbs"
  then have nb: "getNeighbours s c = Inr nbs" and z: "z \<in> set nbs"
    by (simp_all add: static_getNeighbours [OF st])
  from settledD [OF old nb z] tags [of z]
  show "tag (map' t z) \<noteq> NEW \<and> cost (map' t z) \<le> cost (map' t c) + ecost t c z"
    by (simp add: same static_ecost [OF st])
qed

lemma dij_pop:
  assumes dij: "dij_ex {} s" and pop: "open_list' s = (k, x) # rest"
    and s1: "s1 = s\<lparr>open_list' := rest, map' := (map' s)(x := (map' s x)\<lparr>tag := CLOSED\<rparr>)\<rparr>"
  shows "dij_ex {x} s1" and "lo s1 k" and "cost (map' s x) \<le> k"
    and "\<And>c. tag (map' s1 c) = CLOSED \<Longrightarrow> c \<noteq> x \<Longrightarrow> cost (map' s1 c) \<le> k"
    and "tag (map' s x) = OPEN \<Longrightarrow> cost (map' s x) = k"
    and "tag (map' s x) \<noteq> NEW"
proof -
  have st: "static s s1" by (simp add: s1 static_def)
  have costs: "cost (map' s1 c) = cost (map' s c)" for c by (simp add: s1)
  have pids: "pid (map' s1 c) = pid (map' s c)" for c by (simp add: s1)
  have keys: "key (map' s1 c) = key (map' s c)" for c by (simp add: s1)
  have tags: "tag (map' s1 c) = (if c = x then CLOSED else tag (map' s c))" for c by (simp add: s1)
  have op: "open_list' s1 = rest" by (simp add: s1)
  from pop have head: "(k, x) \<in> set (open_list' s)" by simp
  from dij_sorted [OF dij] pop have srt: "sorted (map fst rest)" and low: "\<forall>e \<in> set rest. k \<le> fst e"
    by auto
  from dij_entry [OF dij head] show xk: "cost (map' s x) \<le> k" and xn: "tag (map' s x) \<noteq> NEW"
    by simp_all
  show eq: "cost (map' s x) = k" if "tag (map' s x) = OPEN"
  proof -
    from dij_open(2) [OF dij that] pop low have "k \<le> cost (map' s x)" by auto
    with xk show ?thesis by simp
  qed
  from low show "lo s1 k" by (simp add: lo_def op)
  show "cost (map' s1 c) \<le> k" if "tag (map' s1 c) = CLOSED" and "c \<noteq> x" for c
  proof -
    from that have "tag (map' s c) = CLOSED" by (simp add: tags)
    from dij_closed [OF dij this head] show ?thesis by (simp add: costs)
  qed
  show "dij_ex {x} s1"
  proof (rule dij_exI)
    show "wf_map s1" using st dij_wf [OF dij] by (rule static_wf_map)
    show "open_in_grid s1"
      using dij_open_in_grid [OF dij] pop by (auto simp: open_in_grid_def op s1 in_grid_def)
    show "sorted (map fst (open_list' s1))" using srt by (simp add: op)
  next
    fix e
    assume "e \<in> set (open_list' s1)"
    with pop have "e \<in> set (open_list' s)" by (simp add: op)
    from dij_entry [OF dij this]
    show "cost (map' s1 (snd e)) \<le> fst e \<and> tag (map' s1 (snd e)) \<noteq> NEW"
      by (simp add: costs tags)
  next
    fix c
    assume c: "tag (map' s1 c) = OPEN"
    then have cx: "c \<noteq> x" and ct: "tag (map' s c) = OPEN"
      by (auto simp: tags split: if_splits)
    from dij_open [OF dij ct] pop cx
    show "key (map' s1 c) = cost (map' s1 c) \<and> (cost (map' s1 c), c) \<in> set (open_list' s1)"
      by (auto simp: costs keys op)
  next
    fix c e
    assume c: "tag (map' s1 c) = CLOSED" and e: "e \<in> set (open_list' s1)"
    show "cost (map' s1 c) \<le> fst e"
    proof (cases "c = x")
      case True
      from e low have "k \<le> fst e" by (simp add: op)
      with xk True show ?thesis by (simp add: costs)
    next
      case False
      with c have ct: "tag (map' s c) = CLOSED" by (simp add: tags)
      from e pop have "e \<in> set (open_list' s)" by (simp add: op)
      from dij_closed [OF dij ct this] show ?thesis by (simp add: costs)
    qed
  next
    fix c
    assume g: "in_grid s1 c" and c: "tag (map' s1 c) = CLOSED" and nx: "c \<notin> {x}"
    from g have gs: "in_grid s c" using static_in_grid [OF st] by simp
    from c nx have ct: "tag (map' s c) = CLOSED" by (simp add: tags)
    from dij gs ct have "settled s c" by (rule dij_settled) simp
    with st show "settled s1 c"
      by (rule settled_static) (simp_all add: costs tags)
  next
    fix y
    assume "pid (map' s1 y) \<noteq> - 1"
    then have y: "pid (map' s y) \<noteq> - 1" by (simp add: pids)
    have p: "par s1 y = par s y" using st pids by (rule par_static)
    from dij_parent [OF dij y]
    show "tag (map' s1 (par s1 y)) = CLOSED
          \<and> cost (map' s1 y) = cost (map' s1 (par s1 y)) + ecost s1 (par s1 y) y"
      by (simp add: p costs tags static_ecost [OF st])
  qed
qed

lemma dij_processState:
  assumes dij: "dij_ex {} s" and run: "processState s = Inr (s', r)"
  shows "dij_ex {} s'" and "\<And>e rest. open_list' s = e # rest \<Longrightarrow> lo s' (fst e)"
proof -
  have "dij_ex {} s' \<and> (\<forall>e rest. open_list' s = e # rest \<longrightarrow> lo s' (fst e))"
    using run
  proof (cases rule: processState_cases)
    case empty
    with dij show ?thesis by simp
  next
    case (pop k x rest nbs s1 s2)
    note p = dij_pop [OF dij pop(1,2)]
    have st1: "static s s1" by (simp add: pop(2) static_def)
    have costs: "cost (map' s1 c) = cost (map' s c)" for c by (simp add: pop(2))
    from dij_open_in_grid [OF dij] pop(1) have "in_grid s x"
      by (auto simp: open_in_grid_def)
    then have x1: "in_grid s1 x" using static_in_grid [OF st1] by simp
    note wf1 = dij_wf [OF p(1)]
    from p(3) have "\<not> k < cost (map' s1 x)" by (simp add: costs)
    then have s2: "s2 = s1" by (simp add: pop(4))
    have "dij_ex {} s' \<and> lo s' k"
    proof (cases "tag (map' s x) = OPEN")
      case True
      from p(5) [OF True] have kx: "cost (map' s1 x) = k" by (simp add: costs)
      then have s': "s' = fold (lower_step x) nbs s1" by (simp add: pop(5) s2)
      have init: "loopA x k s1 [] s1"
      proof (rule loopAI)
        show "static s1 s1" by (rule static_refl)
        show "tag (map' s1 x) = CLOSED" by (simp add: pop(2))
        fix c
        assume "tag (map' s1 c) = CLOSED"
        with p(4) [of c] kx show "cost (map' s1 c) \<le> k" by (cases "c = x") simp_all
      qed (use p kx in simp_all)
      from pop(3) have nb: "\<forall>y \<in> set nbs. in_grid s1 y \<and> \<not> isCollision s1 (map' s1 x) (map' s1 y)"
        by (auto dest: getNeighbours_in_grid getNeighbours_free)
      from wf1 pop(3) have self: "x \<notin> set nbs" by (rule getNeighbours_not_self)
      from init x1 self nb have fin: "loopA x k s1 nbs s'"
        unfolding s' by (rule loopA_fold)
      note st = loopA_static [OF fin] and d = loopA_dij [OF fin]
      have sx: "settled s' x"
        unfolding settled_def
      proof (intro allI impI)
        fix ms z
        assume "getNeighbours s' x = Inr ms \<and> z \<in> set ms"
        with pop(3) have "z \<in> set nbs" by (simp add: static_getNeighbours [OF st])
        from loopA_seen [OF fin this] loopA_x [OF fin]
        show "tag (map' s' z) \<noteq> NEW \<and> cost (map' s' z) \<le> cost (map' s' x) + ecost s' x z"
          by simp
      qed
      have "dij_ex {} s'"
      proof (rule dij_exI)
        fix c
        assume g: "in_grid s' c" and c: "tag (map' s' c) = CLOSED"
        show "settled s' c"
        proof (cases "c = x")
          case True
          with sx show ?thesis by simp
        next
          case False
          with d g c show ?thesis by (simp add: dij_settled)
        qed
      qed (use d in \<open>auto dest: dij_wf dij_open_in_grid dij_sorted dij_entry dij_open dij_closed dij_parent\<close>)
      with loopA_lo [OF fin] show ?thesis by simp
    next
      case False
      with p(6) have cl: "tag (map' s x) = CLOSED" by (cases "tag (map' s x)") simp_all
      from dij \<open>in_grid s x\<close> cl have "settled s x" by (rule dij_settled) simp
      with st1 have sx: "settled s1 x"
        by (rule settled_static) (simp_all add: pop(2))
      have d1: "dij_ex {} s1"
      proof (rule dij_exI)
        fix c
        assume g: "in_grid s1 c" and c: "tag (map' s1 c) = CLOSED"
        show "settled s1 c"
        proof (cases "c = x")
          case True
          with sx show ?thesis by simp
        next
          case False
          with p(1) g c show ?thesis by (simp add: dij_settled)
        qed
      qed (use p(1) in \<open>auto dest: dij_wf dij_open_in_grid dij_sorted dij_entry dij_open dij_closed dij_parent\<close>)
      from p(3) have k1: "cost (map' s1 x) \<le> k" by (simp add: costs)
      have "fold (lower_step x) nbs s1 = s1"
        by (rule fold_id) (simp add: settled_lower_step_id [OF d1 x1 sx pop(3)])
      moreover have "fold (raise_state_step x k) nbs s1 = s1"
        by (rule fold_id) (simp add: settled_raise_state_step_id [OF d1 x1 sx pop(3) _ k1])
      ultimately have "s' = s1" by (simp add: pop(5) s2)
      with d1 p(2) show ?thesis by simp
    qed
    with pop(1) show ?thesis by simp
  qed
  then show "dij_ex {} s'" and "\<And>e rest. open_list' s = e # rest \<Longrightarrow> lo s' (fst e)"
    by blast+
qed

lemma dij_fresh:
  assumes "in_grid s g"
  shows "dij_ex {} (insert_node ((reset s)\<lparr>goal' := g\<rparr>) g 0)"
proof -
  let ?r = "(reset s)\<lparr>goal' := g\<rparr>"
  let ?t = "insert_node ?r g 0"
  have tags: "tag (map' ?t c) = (if c = g then OPEN else NEW)" for c
    by (cases c; cases g) (simp add: insert_node_def Let_def reset_def initMap_def)
  have pids: "pid (map' ?t c) = - 1" for c
    by (cases c; cases g) (simp add: insert_node_def Let_def reset_def initMap_def)
  have g: "cost (map' ?t g) = 0" "key (map' ?t g) = 0"
    by (cases g; simp add: insert_node_def Let_def reset_def initMap_def)+
  have op: "open_list' ?t = [(0, g)]"
    by (cases g) (simp add: insert_node_def Let_def reset_def initMap_def)
  have "wf_map ?r"
    using wf_map_reset [of s] by (simp add: wf_map_def grid2Index_def)
  then have wf: "wf_map ?t" using static_insert_node by (rule static_wf_map [rotated])
  from assms have "in_grid ?t g"
    by (simp add: in_grid_def insert_node_def Let_def reset_def initMap_def)
  then have og: "open_in_grid ?t" by (simp add: open_in_grid_def op)
  show ?thesis
  proof (rule dij_exI)
    show "sorted (map fst (open_list' ?t))" by (simp add: op)
  qed (use wf og in \<open>auto simp: tags pids g op split: if_splits\<close>)
qed

lemma pops_sorted:
  "dij_ex {} s \<Longrightarrow> lo s b \<Longrightarrow> sorted (pops n s) \<and> (\<forall>k \<in> set (pops n s). b \<le> k)"
proof (induction n arbitrary: s b)
  case 0
  show ?case by simp
next
  case (Suc n)
  show ?case
  proof (cases "open_list' s")
    case Nil
    then show ?thesis by simp
  next
    case (Cons e rest)
    from Suc.prems(2) Cons have be: "b \<le> fst e" by (simp add: lo_def)
    show ?thesis
    proof (cases "processState s")
      case (Inl err)
      with Cons be show ?thesis by simp
    next
      case (Inr res)
      obtain s' r where res: "res = (s', r)" by (cases res)
      from Inr res have run: "processState s = Inr (s', r)" by simp
      note d = dij_processState [OF Suc.prems(1) run]
      from d(1) d(2) [OF Cons]
      have "sorted (pops n s') \<and> (\<forall>k \<in> set (pops n s'). fst e \<le> k)" by (rule Suc.IH)
      with Cons run be show ?thesis by auto
    qed
  qed
qed

text \<open>
  C6, for the search of a fresh goal: when \<^verbatim>\<open>plan\<close> has reset the map and inserted the
  goal with cost 0, the keys that successive calls of \<^verbatim>\<open>processState\<close> pop are
  non-decreasing, however long the loop runs (the loop of \<^verbatim>\<open>plan\<close> and any continuation of
  it until the open list is empty).
\<close>

theorem fresh_search_keys_nondecreasing:
  assumes "in_grid s0 g"
  shows "sorted (pops n (insert_node ((reset s0)\<lparr>goal' := g\<rparr>) g 0))"
proof -
  let ?t = "insert_node ((reset s0)\<lparr>goal' := g\<rparr>) g 0"
  from assms have "dij_ex {} ?t" by (rule dij_fresh)
  moreover have "lo ?t 0"
    by (cases g) (simp add: lo_def insert_node_def Let_def reset_def initMap_def)
  ultimately show ?thesis using pops_sorted by blast
qed

lemma sqrt2_lower: "7 / 5 < sqrt 2"
  by (rule real_less_rsqrt) (simp add: power2_eq_square)

lemma pops_three: "pops 3 = pops (Suc (Suc (Suc 0)))"
  by (simp add: numeral_eq_Suc)

lemmas rdefs = strip_def costs_1_def costs_2_def costs_3_def after_1_def after_2_def
  third_call_def repair_start_def plan_four result_state_def pops_three

text \<open>The theorem in the open corridor: the first three keys are 0, 1 and 2.\<close>

theorem fresh_search_keys_witness:
  "in_grid (corridor\<lparr>global_costmap' := open_costs\<rparr>) (0, 0)
   \<and> pops 3 (fresh open_costs) = [0, 1, 2]
   \<and> sorted (pops 3 (fresh open_costs))"
  using fresh_search_keys_nondecreasing [of "corridor\<lparr>global_costmap' := open_costs\<rparr>" "(0, 0)" 3]
  by (simp add: defs pdefs pops_three)

text \<open>
  C6 as the claim states it fails in the loop of \<^verbatim>\<open>modify\<close>. After two calls on the grid of
  four by three cells, the third call finds the cell \<open>(2,0)\<close> of its path with the lethal
  predecessor \<open>(2,1)\<close> and calls \<^verbatim>\<open>modify\<close>. Its loop pops \<open>(2,0)\<close> with key \<open>2 + sqrt 2\<close>,
  then \<open>(1,0)\<close> with key \<open>3 + sqrt 2\<close>; that call lowers the cost of \<open>(1,0)\<close> to 1 through
  the goal and inserts it again, a closed cell, with key 1, which the third call of the
  same loop pops. Two calls do not end the loop (with fuel 2 it has not returned).
\<close>

theorem repair_keys_decrease:
  "result_state (plan 4 strip costs_1 (2, 0) (0, 0)) = Some after_1
   \<and> result_state (plan 4 after_1 costs_2 (2, 0) (0, 0)) = Some after_2
   \<and> goal' third_call = (0, 0)
   \<and> getState third_call (2, 0) = Inr (2, 0)
   \<and> index2Grid third_call (pid (map' third_call (2, 0))) = (2, 1)
   \<and> isCollision third_call (map' third_call (2, 0)) (map' third_call (2, 1))
   \<and> tag (map' third_call (2, 0)) = CLOSED
   \<and> modify (Suc (Suc 0)) third_call (2, 0) (2, 1) = None
   \<and> pops 3 repair_start = [2 + sqrt 2, 3 + sqrt 2, 1]
   \<and> \<not> sorted (pops 3 repair_start)"
  using sqrt2_lower sqrt2_less_2
  by (simp add: defs pdefs rdefs)

end
